theory Spec2Isabelle
  imports Complex_Main "HOL-Library.Word" "HOL-Library.Log_Nat"
begin

unbundle bit_operations_syntax

section \<open>JavaScript numbers\<close>

text \<open>
  A JavaScript number is an IEEE-754 binary64 value. It is modelled by its exact value:
  \<open>NaN\<close>, an infinity with its sign, or a finite value given by a sign flag
  (\<open>True\<close> is negative) and a non-negative rational magnitude, so that \<open>-0\<close> is
  \<open>Finite True 0\<close> and differs from \<open>+0\<close>. JavaScript cannot tell two NaNs apart,
  hence the single \<open>NaN\<close>. With this representation \<open>Object.is\<close> is equality.
\<close>

datatype number = NaN | Infinity bool | Finite bool rat

definition Object_is :: "number \<Rightarrow> number \<Rightarrow> bool" where
  "Object_is a b = (a = b)"

definition Number_isNaN :: "number \<Rightarrow> bool" where
  "Number_isNaN v = (case v of NaN \<Rightarrow> True | _ \<Rightarrow> False)"

definition Number_isFinite :: "number \<Rightarrow> bool" where
  "Number_isFinite v = (case v of Finite _ _ \<Rightarrow> True | _ \<Rightarrow> False)"

definition Math_abs :: "number \<Rightarrow> number" where
  "Math_abs v = (case v of NaN \<Rightarrow> NaN | Infinity _ \<Rightarrow> Infinity False | Finite _ m \<Rightarrow> Finite False m)"

definition with_sign :: "bool \<Rightarrow> rat \<Rightarrow> rat" where
  "with_sign s m = (if s then - m else m)"

text \<open>The relational operators \<open><\<close>, \<open>>\<close> and \<open>===\<close> on numbers.\<close>

fun js_lt :: "number \<Rightarrow> number \<Rightarrow> bool" where
  "js_lt NaN _ = False"
| "js_lt _ NaN = False"
| "js_lt (Infinity s) (Infinity t) = (s \<and> \<not> t)"
| "js_lt (Infinity s) (Finite _ _) = s"
| "js_lt (Finite _ _) (Infinity t) = (\<not> t)"
| "js_lt (Finite s m) (Finite t n) = (with_sign s m < with_sign t n)"

definition js_gt :: "number \<Rightarrow> number \<Rightarrow> bool" where
  "js_gt a b = js_lt b a"

fun js_strict_eq :: "number \<Rightarrow> number \<Rightarrow> bool" where
  "js_strict_eq NaN _ = False"
| "js_strict_eq _ NaN = False"
| "js_strict_eq (Finite s m) (Finite t n) = (with_sign s m = with_sign t n)"
| "js_strict_eq a b = (a = b)"

subsection \<open>Rounding to a binary format\<close>

text \<open>
  \<open>floor_log2 r\<close> is the exponent of the leading bit of a positive rational,
  computed from the bit lengths of its numerator and denominator.
\<close>

definition floor_log2 :: "rat \<Rightarrow> int" where
  "floor_log2 r = (case quotient_of r of (p, q) \<Rightarrow>
     (let d = bitlen p - bitlen q in if 2 powi d \<le> r then d else d - 1))"

definition round_half_even :: "rat \<Rightarrow> int" where
  "round_half_even x = (let f = \<lfloor>x\<rfloor>; d = x - of_int f in
     if d < 1 / 2 then f else if 1 / 2 < d then f + 1 else if even f then f else f + 1)"

text \<open>
  IEEE-754 round-to-nearest, ties-to-even, of a non-negative magnitude to the format
  with \<open>p\<close> significant bits and exponent range \<open>emin .. emax\<close>. Below
  \<open>2 powi emin\<close> the spacing stays that of the subnormals; a rounded result of
  \<open>2 powi (emax + 1)\<close> or more overflows to infinity (\<open>None\<close>).
\<close>

definition round_to_format :: "nat \<Rightarrow> int \<Rightarrow> int \<Rightarrow> rat \<Rightarrow> rat option" where
  "round_to_format p emin emax m =
     (if m = 0 then Some 0
      else let e = max (floor_log2 m) emin;
               u = 2 powi (e - int p + 1);
               r = of_int (round_half_even (m / u)) * u
           in if 2 powi (emax + 1) \<le> r then None else Some r)"

definition binary64 :: "bool \<Rightarrow> rat \<Rightarrow> number" where
  "binary64 s m = (case round_to_format 53 (- 1022) 1023 m of
     None \<Rightarrow> Infinity s | Some r \<Rightarrow> Finite s r)"

subsection \<open>Arithmetic\<close>

text \<open>
  The arithmetic operators compute the exact result and round it to binary64, as
  IEEE-754 prescribes.
\<close>

fun js_mul :: "number \<Rightarrow> number \<Rightarrow> number" where
  "js_mul NaN _ = NaN"
| "js_mul _ NaN = NaN"
| "js_mul (Infinity s) (Infinity t) = Infinity (s \<noteq> t)"
| "js_mul (Infinity s) (Finite t n) = (if n = 0 then NaN else Infinity (s \<noteq> t))"
| "js_mul (Finite s m) (Infinity t) = (if m = 0 then NaN else Infinity (s \<noteq> t))"
| "js_mul (Finite s m) (Finite t n) = binary64 (s \<noteq> t) (m * n)"

fun js_div :: "number \<Rightarrow> number \<Rightarrow> number" where
  "js_div NaN _ = NaN"
| "js_div _ NaN = NaN"
| "js_div (Infinity s) (Infinity t) = NaN"
| "js_div (Infinity s) (Finite t n) = Infinity (s \<noteq> t)"
| "js_div (Finite s m) (Infinity t) = Finite (s \<noteq> t) 0"
| "js_div (Finite s m) (Finite t n) =
     (if n = 0 then (if m = 0 then NaN else Infinity (s \<noteq> t))
      else binary64 (s \<noteq> t) (m / n))"

fun js_add :: "number \<Rightarrow> number \<Rightarrow> number" where
  "js_add NaN _ = NaN"
| "js_add _ NaN = NaN"
| "js_add (Infinity s) (Infinity t) = (if s = t then Infinity s else NaN)"
| "js_add (Infinity s) (Finite _ _) = Infinity s"
| "js_add (Finite _ _) (Infinity t) = Infinity t"
| "js_add (Finite s m) (Finite t n) =
     (let x = with_sign s m + with_sign t n
      in if x = 0 then Finite (s \<and> t) 0 else binary64 (x < 0) \<bar>x\<bar>)"

text \<open>
  Integer-valued numbers (the results of the 32-bit operators, small literals) are
  kept as \<open>int\<close>; \<open>number_of_int\<close> is their value as a number where they enter
  floating-point arithmetic. \<open>Math_pow2 k\<close> is \<open>Math.pow(2, k)\<close> for an integer \<open>k\<close>.
\<close>

definition number_of_int :: "int \<Rightarrow> number" where
  "number_of_int i = binary64 (i < 0) (of_int \<bar>i\<bar>)"

definition Math_pow2 :: "int \<Rightarrow> number" where
  "Math_pow2 k = binary64 False (2 powi k)"

subsection \<open>The 32-bit integer operators\<close>

text \<open>
  \<open><<\<close>, \<open>>>\<close>, \<open>|\<close> and \<open>&\<close> convert their operands with ToInt32 (wrap-around
  into \<open>-2^31 .. 2^31 - 1\<close>) and take the shift count modulo 32.
\<close>

definition ToInt32 :: "int \<Rightarrow> int" where
  "ToInt32 x = (x + 2 ^ 31) mod 2 ^ 32 - 2 ^ 31"

definition js_shl :: "int \<Rightarrow> int \<Rightarrow> int" where
  "js_shl a n = ToInt32 (push_bit (nat (n mod 32)) (ToInt32 a))"

definition js_sar :: "int \<Rightarrow> int \<Rightarrow> int" where
  "js_sar a n = drop_bit (nat (n mod 32)) (ToInt32 a)"

definition js_or :: "int \<Rightarrow> int \<Rightarrow> int" where
  "js_or a b = ToInt32 a OR ToInt32 b"

definition js_and :: "int \<Rightarrow> int \<Rightarrow> int" where
  "js_and a b = ToInt32 a AND ToInt32 b"

subsection \<open>IEEE-754 interchange encodings\<close>

text \<open>
  The bit pattern of a number in the binary interchange format with \<open>t\<close> fraction
  bits and \<open>w\<close> exponent bits, and the number a bit pattern stands for. They model
  what \<open>DataView.setFloat32\<close>, \<open>setFloat64\<close>, \<open>getFloat32\<close> and \<open>getFloat64\<close>
  write and read. The NaN written is the quiet NaN with an empty payload.
\<close>

definition ieee_bits :: "nat \<Rightarrow> nat \<Rightarrow> number \<Rightarrow> int" where
  "ieee_bits t w v =
     (let bias = 2 ^ (w - 1) - 1;
          emin = 1 - bias;
          emax = bias;
          inf = (2 ^ w - 1) * 2 ^ t;
          sgn = (\<lambda>s. if s then 2 ^ (t + w) else 0)
      in case v of
           NaN \<Rightarrow> inf + 2 ^ (t - 1)
         | Infinity s \<Rightarrow> sgn s + inf
         | Finite s m \<Rightarrow>
             (case round_to_format (t + 1) emin emax m of
                None \<Rightarrow> sgn s + inf
              | Some r \<Rightarrow>
                  if r < 2 powi emin then sgn s + \<lfloor>r / 2 powi (emin - int t)\<rfloor>
                  else let e = floor_log2 r
                       in sgn s + (e + bias) * 2 ^ t
                          + (\<lfloor>r / 2 powi (e - int t)\<rfloor> - 2 ^ t)))"

definition ieee_value :: "nat \<Rightarrow> nat \<Rightarrow> int \<Rightarrow> number" where
  "ieee_value t w bits =
     (let bias = 2 ^ (w - 1) - 1;
          s = (bits div 2 ^ (t + w)) mod 2 = 1;
          e = (bits div 2 ^ t) mod 2 ^ w;
          f = bits mod 2 ^ t
      in if e = 2 ^ w - 1 then (if f = 0 then Infinity s else NaN)
         else if e = 0 then Finite s (of_int f * 2 powi (1 - bias - int t))
         else Finite s (of_int (2 ^ t + f) * 2 powi (e - bias - int t)))"

type_synonym byte = "8 word"
type_synonym buffer = "byte list"

text \<open>Big-endian byte sequences, as a \<open>DataView\<close> reads and writes them.\<close>

fun be_int :: "buffer \<Rightarrow> int" where
  "be_int [] = 0"
| "be_int (b # bs) = uint b * 256 ^ length bs + be_int bs"

fun be_bytes :: "nat \<Rightarrow> int \<Rightarrow> buffer" where
  "be_bytes 0 x = []"
| "be_bytes (Suc n) x = word_of_int (x div 256 ^ n) # be_bytes n x"

definition setFloat32 :: "number \<Rightarrow> buffer" where
  "setFloat32 v = be_bytes 4 (ieee_bits 23 8 v)"

definition getFloat32 :: "buffer \<Rightarrow> number" where
  "getFloat32 bs = ieee_value 23 8 (be_int bs)"

definition setFloat64 :: "number \<Rightarrow> buffer" where
  "setFloat64 v = be_bytes 8 (ieee_bits 52 11 v)"

definition getFloat64 :: "buffer \<Rightarrow> number" where
  "getFloat64 bs = ieee_value 52 11 (be_int bs)"

definition getBigUint64 :: "buffer \<Rightarrow> int" where
  "getBigUint64 bs = be_int bs"

section \<open>Errors, results and buffer reads\<close>

text \<open>
  The parser raises \<open>Error\<close> objects that carry a message only. Each constructor up to
  \<open>RangeError\<close> stands for one message of the source and holds what the message
  interpolates; the specification names the kinds. The remaining constructors are kinds
  of the specification's taxonomy that the collection and tag parsers raise.
\<close>

datatype eof_site = ReadByte nat | ReadingSimple | ReadingFloat16 | ReadingFloat32 | ReadingFloat64

datatype fits = FitsFloat16 | FitsFloat16OrFloat32

datatype error =
    InvalidHex
  | UnexpectedEof eof_site
  | WrongMajorType int
  | OverlongSimple int
  | FloatNotSimple int
  | Reserved int
  | UnexpectedBreak
  | InvalidAdditionalInfo int
  | NotAFloat int
  | NonCanonicalNaN
  | NonMinimalFloat fits
  | RangeError
  | MissingBreak
  | NestedIndefinite
  | IndefiniteDisallowed
  | DepthExceeded
  | ArrayTooLarge
  | MapTooLarge
  | OutputTooLarge
  | BignumTooLarge
  | StringTooLong
  | InvalidUtf8
  | NonCanonicalKeyOrder
  | DuplicateKey
  | BreakInsideMapPair
  | UnknownTag
  | TagShapeMismatch
  | PlutusShapeMismatch

datatype cbor_value = Number number | Boolean bool | Null | Undefined | SimpleValue int

record ParseResult =
  "value" :: cbor_value
  bytesRead :: nat

record ParseOptions =
  validateCanonical :: "bool option"
  strict :: "bool option"

text \<open>
  A computation on the input buffer yields an error or a result, together with the
  list of buffer indices it has read, in order.
\<close>

type_synonym 'a eff = "(error + 'a) \<times> nat list"

definition ok :: "'a \<Rightarrow> 'a eff" where
  "ok x = (Inr x, [])"

definition throw :: "error \<Rightarrow> 'a eff" where
  "throw e = (Inl e, [])"

definition bind_eff :: "'a eff \<Rightarrow> ('a \<Rightarrow> 'b eff) \<Rightarrow> 'b eff" where
  "bind_eff m f = (case m of
       (Inl e, l) \<Rightarrow> (Inl e, l)
     | (Inr x, l) \<Rightarrow> (case f x of (r, l') \<Rightarrow> (r, l @ l')))"

definition lift :: "error + 'a \<Rightarrow> 'a eff" where
  "lift r = (r, [])"

section \<open>Helpers of the parser utilities\<close>

text \<open>
  Modelled from the spec: \<open>hexToBytes\<close> of the parser utilities. The hex codec
  requires an even length and every character in \<open>[0-9a-fA-F]\<close>, and fails with
  \<open>InvalidHex\<close> on any deviation. The result is a fresh byte array.
\<close>

definition hex_digit :: "char \<Rightarrow> nat option" where
  "hex_digit c =
     (let n = (of_char c :: nat)
      in if 48 \<le> n \<and> n \<le> 57 then Some (n - 48)
         else if 97 \<le> n \<and> n \<le> 102 then Some (n - 87)
         else if 65 \<le> n \<and> n \<le> 70 then Some (n - 55)
         else None)"

fun hexToBytes :: "string \<Rightarrow> error + buffer" where
  "hexToBytes [] = Inr []"
| "hexToBytes [c] = Inl InvalidHex"
| "hexToBytes (c # d # cs) =
     (case (hex_digit c, hex_digit d) of
        (Some h, Some l) \<Rightarrow>
          (case hexToBytes cs of
             Inl e \<Rightarrow> Inl e
           | Inr bs \<Rightarrow> Inr (of_nat (16 * h + l) # bs))
      | _ \<Rightarrow> Inl InvalidHex)"

text \<open>
  Modelled from the spec: \<open>readByte\<close> of the parser utilities. Every read is
  bounds-checked; an out-of-range read fails with \<open>UnexpectedEof\<close>, and the error
  carries the offset. The byte is returned as an integer in \<open>0 .. 255\<close>.
\<close>

definition readByte :: "buffer \<Rightarrow> nat \<Rightarrow> int eff" where
  "readByte buffer offset =
     (if length buffer \<le> offset then throw (UnexpectedEof (ReadByte offset))
      else (Inr (uint (buffer ! offset)), [offset]))"

text \<open>
  Modelled from the spec: \<open>extractCborHeader\<close> of the parser utilities,
  \<open>extract_header(b) = (b >> 5, b & 0x1F)\<close>: major type and additional info.
\<close>

definition extractCborHeader :: "int \<Rightarrow> int \<times> int" where
  "extractCborHeader initialByte = (js_sar initialByte 5, js_and initialByte 0x1f)"

text \<open>
  A \<open>DataView\<close> over the input buffer: the constructor raises \<open>RangeError\<close> when the
  window does not lie within the buffer; \<open>getFloat32\<close> and \<open>getFloat64\<close> read 4 and
  8 bytes of the window, big-endian.
\<close>

definition DataView_new :: "buffer \<Rightarrow> nat \<Rightarrow> nat \<Rightarrow> (buffer \<times> nat) eff" where
  "DataView_new buffer byteOffset byteLength =
     (if length buffer < byteOffset + byteLength then throw RangeError
      else ok (buffer, byteOffset))"

definition DataView_read :: "buffer \<times> nat \<Rightarrow> nat \<Rightarrow> nat \<Rightarrow> buffer eff" where
  "DataView_read dataView pos n =
     (case dataView of (buffer, start) \<Rightarrow>
        (Inr (take n (drop (start + pos) buffer)), [start + pos ..< start + pos + n]))"

definition DataView_getFloat32 :: "buffer \<times> nat \<Rightarrow> nat \<Rightarrow> number eff" where
  "DataView_getFloat32 dataView pos =
     bind_eff (DataView_read dataView pos 4) (\<lambda>bs. ok (getFloat32 bs))"

definition DataView_getFloat64 :: "buffer \<times> nat \<Rightarrow> nat \<Rightarrow> number eff" where
  "DataView_getFloat64 dataView pos =
     bind_eff (DataView_read dataView pos 8) (\<lambda>bs. ok (getFloat64 bs))"

section \<open>The float and simple-value parser (useCborFloat)\<close>

definition float16ToFloat64 :: "buffer \<Rightarrow> nat \<Rightarrow> number eff" where
  "float16ToFloat64 buffer offset =
     bind_eff (readByte buffer offset) (\<lambda>byte1.
     bind_eff (readByte buffer (offset + 1)) (\<lambda>byte2.
       let v = js_or (js_shl byte1 8) byte2;
           sign = js_sar (js_and v 0x8000) 15;
           exponent = js_sar (js_and v 0x7c00) 10;
           fraction = js_and v 0x03ff
       in ok
         (if exponent = 0 then
            (if fraction = 0 then (if sign = 0 then Finite False 0 else Finite True 0)
             else js_mul
                    (js_mul (if sign = 0 then number_of_int 1 else number_of_int (- 1))
                            (Math_pow2 (- 14)))
                    (js_div (number_of_int fraction) (number_of_int 1024)))
          else if exponent = 0x1f then
            (if fraction = 0 then (if sign = 0 then Infinity False else Infinity True)
             else NaN)
          else js_mul
                 (js_mul (if sign = 0 then number_of_int 1 else number_of_int (- 1))
                         (Math_pow2 (exponent - 15)))
                 (js_add (number_of_int 1)
                         (js_div (number_of_int fraction) (number_of_int 1024))))))"

definition isNegativeZero :: "number \<Rightarrow> bool" where
  "isNegativeZero v = Object_is v (Finite True 0)"

text \<open>
  \<open>encodeFloat16Bytes\<close> works on a scratch \<open>ArrayBuffer(8)\<close> of its own; it does not
  touch the input buffer. \<open>bits\<close> is a BigInt, on which \<open>>>\<close> and \<open>&\<close> are exact;
  \<open>mant64 >> 42\<close> is the 32-bit operator on a number.
\<close>

definition encodeFloat16Bytes :: "number \<Rightarrow> buffer" where
  "encodeFloat16Bytes v =
     (if isNegativeZero v then [0x80, 0x00]
      else if js_strict_eq v (Finite False 0) then [0x00, 0x00]
      else if Number_isNaN v then [0x7e, 0x00]
      else if js_strict_eq v (Infinity False) then [0x7c, 0x00]
      else if js_strict_eq v (Infinity True) then [0xfc, 0x00]
      else
        let sign = (if js_lt v (Finite False 0) then 1 else 0);
            absValue = Math_abs v;
            bits = getBigUint64 (setFloat64 absValue);
            exp64 = (drop_bit 52 bits AND 0x7ff) - 1023;
            mant64 = bits AND 0xfffffffffffff;
            exp16 = (if exp64 < - 14 then 0 else if 15 < exp64 then 31 else exp64 + 15);
            mant16 = (if exp64 < - 14 then 0 else if 15 < exp64 then 0 else js_sar mant64 42);
            float16 = js_or (js_or (js_shl sign 15) (js_shl exp16 10)) mant16
        in [word_of_int (js_and (js_sar float16 8) 0xff), word_of_int (js_and float16 0xff)])"

text \<open>
  The literal \<open>0.00006103515625\<close> is \<open>2 powi (- 14)\<close>. The round trip decodes the two
  scratch bytes with \<open>float16ToFloat64\<close>; its reads are not reads of the input buffer
  and are dropped.
\<close>

definition canBeFloat16 :: "number \<Rightarrow> error + bool" where
  "canBeFloat16 v =
     (if Number_isNaN v then Inr True
      else if \<not> Number_isFinite v \<or> Object_is v (Finite False 0) \<or> isNegativeZero v
        then Inr True
      else
        let absValue = Math_abs v
        in if js_lt absValue (binary64 False (6103515625 / 100000000000000))
              \<or> js_gt absValue (number_of_int 65504)
           then Inr False
           else
             let bytes = encodeFloat16Bytes v
             in case fst (float16ToFloat64 bytes 0) of
                  Inl e \<Rightarrow> Inl e
                | Inr decoded \<Rightarrow> Inr (Object_is decoded v))"

definition canBeFloat32 :: "number \<Rightarrow> bool" where
  "canBeFloat32 v =
     (if Number_isNaN v then True
      else if \<not> Number_isFinite v \<or> Object_is v (Finite False 0) \<or> isNegativeZero v
        then True
      else
        let view = setFloat32 v;
            decoded = getFloat32 view
        in Object_is decoded v)"

definition parseSimpleFromBuffer :: "buffer \<Rightarrow> nat \<Rightarrow> ParseResult eff" where
  "parseSimpleFromBuffer buffer offset =
     bind_eff (readByte buffer offset) (\<lambda>initialByte.
       case extractCborHeader initialByte of (majorType, additionalInfo) \<Rightarrow>
         if majorType \<noteq> 7 then throw (WrongMajorType majorType)
         else if additionalInfo < 20 then
           ok \<lparr>value = SimpleValue additionalInfo, bytesRead = 1\<rparr>
         else if additionalInfo = 20 then ok \<lparr>value = Boolean False, bytesRead = 1\<rparr>
         else if additionalInfo = 21 then ok \<lparr>value = Boolean True, bytesRead = 1\<rparr>
         else if additionalInfo = 22 then ok \<lparr>value = Null, bytesRead = 1\<rparr>
         else if additionalInfo = 23 then ok \<lparr>value = Undefined, bytesRead = 1\<rparr>
         else if additionalInfo = 24 then
           (if length buffer \<le> offset + 1 then throw (UnexpectedEof ReadingSimple)
            else bind_eff (readByte buffer (offset + 1)) (\<lambda>simpleValue.
              if simpleValue < 32 then throw (OverlongSimple simpleValue)
              else ok \<lparr>value = SimpleValue simpleValue, bytesRead = 2\<rparr>))
         else if additionalInfo = 25 \<or> additionalInfo = 26 \<or> additionalInfo = 27 then
           throw (FloatNotSimple additionalInfo)
         else if additionalInfo = 28 \<or> additionalInfo = 29 \<or> additionalInfo = 30 then
           throw (Reserved additionalInfo)
         else if additionalInfo = 31 then throw UnexpectedBreak
         else throw (InvalidAdditionalInfo additionalInfo))"

text \<open>\<open>options?.validateCanonical\<close>: absent options or an absent field count as false.\<close>

definition validateCanonical_set :: "ParseOptions option \<Rightarrow> bool" where
  "validateCanonical_set options =
     (case options of None \<Rightarrow> False | Some opts \<Rightarrow> validateCanonical opts = Some True)"

definition parseFloatFromBuffer :: "buffer \<Rightarrow> nat \<Rightarrow> ParseOptions option \<Rightarrow> ParseResult eff" where
  "parseFloatFromBuffer buffer offset options =
     bind_eff (readByte buffer offset) (\<lambda>initialByte.
       case extractCborHeader initialByte of (majorType, additionalInfo) \<Rightarrow>
         if majorType \<noteq> 7 then throw (WrongMajorType majorType)
         else if additionalInfo = 25 then
           (if length buffer \<le> offset + 2 then throw (UnexpectedEof ReadingFloat16)
            else bind_eff (float16ToFloat64 buffer (offset + 1)) (\<lambda>v.
              ok \<lparr>value = Number v, bytesRead = 3\<rparr>))
         else if additionalInfo = 26 then
           (if length buffer \<le> offset + 4 then throw (UnexpectedEof ReadingFloat32)
            else bind_eff (DataView_new buffer (offset + 1) 4) (\<lambda>dataView.
                 bind_eff (DataView_getFloat32 dataView 0) (\<lambda>v.
                   if validateCanonical_set options then
                     (if Number_isNaN v then throw NonCanonicalNaN
                      else bind_eff (lift (canBeFloat16 v)) (\<lambda>c16.
                        if c16 then throw (NonMinimalFloat FitsFloat16)
                        else ok \<lparr>value = Number v, bytesRead = 5\<rparr>))
                   else ok \<lparr>value = Number v, bytesRead = 5\<rparr>)))
         else if additionalInfo = 27 then
           (if length buffer \<le> offset + 8 then throw (UnexpectedEof ReadingFloat64)
            else bind_eff (DataView_new buffer (offset + 1) 8) (\<lambda>dataView.
                 bind_eff (DataView_getFloat64 dataView 0) (\<lambda>v.
                   if validateCanonical_set options then
                     (if Number_isNaN v then throw NonCanonicalNaN
                      else bind_eff (lift (canBeFloat16 v)) (\<lambda>c16.
                        if c16 \<or> canBeFloat32 v then throw (NonMinimalFloat FitsFloat16OrFloat32)
                        else ok \<lparr>value = Number v, bytesRead = 9\<rparr>))
                   else ok \<lparr>value = Number v, bytesRead = 9\<rparr>)))
         else throw (NotAFloat additionalInfo))"

definition parseFromBuffer :: "buffer \<Rightarrow> nat \<Rightarrow> ParseOptions option \<Rightarrow> ParseResult eff" where
  "parseFromBuffer buffer offset options =
     bind_eff (readByte buffer offset) (\<lambda>initialByte.
       case extractCborHeader initialByte of (majorType, additionalInfo) \<Rightarrow>
         if majorType \<noteq> 7 then throw (WrongMajorType majorType)
         else if additionalInfo = 25 \<or> additionalInfo = 26 \<or> additionalInfo = 27 then
           parseFloatFromBuffer buffer offset options
         else parseSimpleFromBuffer buffer offset)"

definition parseSimple :: "string \<Rightarrow> ParseOptions option \<Rightarrow> ParseResult eff" where
  "parseSimple hexString options =
     bind_eff (lift (hexToBytes hexString)) (\<lambda>buffer. parseSimpleFromBuffer buffer 0)"

definition parseFloat :: "string \<Rightarrow> ParseOptions option \<Rightarrow> ParseResult eff" where
  "parseFloat hexString options =
     bind_eff (lift (hexToBytes hexString)) (\<lambda>buffer. parseFloatFromBuffer buffer 0 options)"

definition parse :: "string \<Rightarrow> ParseOptions option \<Rightarrow> ParseResult eff" where
  "parse hexString options =
     bind_eff (lift (hexToBytes hexString)) (\<lambda>buffer. parseFromBuffer buffer 0 options)"

section \<open>Notions of the specification\<close>

text \<open>
  Following the specification: the IEEE-754 binary16 interpretation of a 16-bit pattern,
  \<open>(-1)^sign * 2^(exponent-15) * (1 + fraction/1024)\<close> for normal numbers,
  \<open>(-1)^sign * 2^-14 * (fraction/1024)\<close> for subnormals, signed zeros, signed
  infinities for exponent 31 with zero fraction and NaN for exponent 31 otherwise. The
  fields are taken arithmetically and the value is exact.
\<close>

definition ieee_binary16 :: "int \<Rightarrow> number" where
  "ieee_binary16 pattern =
     (let sign = pattern div 2 ^ 15 mod 2;
          exponent = pattern div 2 ^ 10 mod 2 ^ 5;
          fraction = pattern mod 2 ^ 10
      in if exponent = 0 then
           (if fraction = 0 then Finite (sign = 1) 0
            else Finite (sign = 1) (2 powi (- 14) * (of_int fraction / 1024)))
         else if exponent = 31 then
           (if fraction = 0 then Infinity (sign = 1) else NaN)
         else Finite (sign = 1) (2 powi (exponent - 15) * (1 + of_int fraction / 1024)))"

text \<open>
  A number is a binary16 value when some 16-bit pattern stands for it. Following the
  specification, a number is representable in binary32 when the round trip through
  binary32 preserves it under \<open>Object.is\<close>.
\<close>

definition is_binary16_value :: "number \<Rightarrow> bool" where
  "is_binary16_value v = (\<exists>p. 0 \<le> p \<and> p < 2 ^ 16 \<and> ieee_binary16 p = v)"

definition representable_binary32 :: "number \<Rightarrow> bool" where
  "representable_binary32 v = Object_is (getFloat32 (setFloat32 v)) v"

section \<open>The public API (index.ts)\<close>

text \<open>
  \<open>decode\<close> and \<open>decodeWithSourceMap\<close> delegate to the functions returned by
  \<open>useCborParser()\<close>, which is not among the source files at hand; they are taken as
  a parameter. A result of such a function stands for the returned object or the
  exception thrown, and the functions are taken not to change the options object
  passed to them.
\<close>

record ('o, 'r, 'm) CborParser =
  parser_parse :: "string \<Rightarrow> 'o option \<Rightarrow> 'r"
  parser_parseWithSourceMap :: "string \<Rightarrow> 'o option \<Rightarrow> 'm"

definition decode :: "('o, 'r, 'm) CborParser \<Rightarrow> string \<Rightarrow> 'o option \<Rightarrow> 'r" where
  "decode useCborParser hexString options = parser_parse useCborParser hexString options"

definition decodeWithSourceMap ::
    "('o, 'r, 'm) CborParser \<Rightarrow> string \<Rightarrow> 'o option \<Rightarrow> 'm" where
  "decodeWithSourceMap useCborParser hexString options =
     parser_parseWithSourceMap useCborParser hexString options"

text \<open>
  The class \<open>CborDecoder\<close>: its only field holds the options; the constructor stores
  \<open>options || {}\<close>. A method returns its result together with the object as the call
  leaves it.
\<close>

record CborDecoder =
  decoder_options :: ParseOptions

definition CborDecoder_new :: "ParseOptions option \<Rightarrow> CborDecoder" where
  "CborDecoder_new options =
     \<lparr>decoder_options =
        (case options of
           None \<Rightarrow> \<lparr>validateCanonical = None, strict = None\<rparr>
         | Some opts \<Rightarrow> opts)\<rparr>"

definition CborDecoder_decode ::
    "(ParseOptions, 'r, 'm) CborParser \<Rightarrow> CborDecoder \<Rightarrow> string \<Rightarrow> 'r \<times> CborDecoder" where
  "CborDecoder_decode useCborParser this hexString =
     (decode useCborParser hexString (Some (decoder_options this)), this)"

definition CborDecoder_decodeWithSourceMap ::
    "(ParseOptions, 'r, 'm) CborParser \<Rightarrow> CborDecoder \<Rightarrow> string \<Rightarrow> 'm \<times> CborDecoder" where
  "CborDecoder_decodeWithSourceMap useCborParser this hexString =
     (decodeWithSourceMap useCborParser hexString (Some (decoder_options this)), this)"

section \<open>The parser (useCborParser.ts)\<close>

text \<open>
  Modelled from the spec: the decoded value of \<open>types.ts\<close>, which is not among the
  source files at hand. The variants are those of the spec's data model: integers by
  major type, byte and text strings (a text string kept as its bytes), arrays and maps
  with their \<open>indefinite\<close> flag, tagged values, and the values of major type 7 as
  \<open>useCborFloat\<close> returns them. Whatever the tag dispatcher produces (bignums,
  Plutus data) is built from these by \<open>tag_semantics\<close> below.
\<close>

datatype decoded =
    Unsigned nat
  | Negative int
  | Bytes buffer
  | Text buffer
  | Array "decoded list" bool
  | Map "(decoded \<times> decoded) list" bool
  | Tagged nat decoded
  | Major7 cbor_value

text \<open>
  Modelled from the spec: the options record of the limits accountant (\<open>types.ts\<close> is
  not among the source files at hand), with the options the collection and string
  parsers consult. \<open>timeout_ms\<close> reads the wall clock and has no counterpart here;
  \<open>max_bignum_bytes\<close> and \<open>strict_tags\<close> are consulted by the tag dispatcher only,
  which receives the whole record.
\<close>

record DecodeOptions =
  max_depth :: nat
  max_array_length :: nat
  max_map_size :: nat
  max_byte_string_length :: nat
  max_text_string_length :: nat
  max_output_size :: nat
  allow_indefinite :: bool
  strict_utf8 :: bool
  validate_canonical :: bool

text \<open>
  Modelled from the spec: the source-map entry \<open>{path, start, end, major_type,
  type_label, value_repr, parent, children}\<close> of \<open>types.ts\<close>, which is not among the
  source files at hand; the root's parent is \<open>None\<close>.
\<close>

record SourceMapEntry =
  entry_path :: string
  entry_start :: nat
  entry_end :: nat
  entry_major_type :: int
  entry_type_label :: string
  entry_value_repr :: string
  entry_parent :: "string option"
  entry_children :: "string list"

text \<open>
  Modelled from the spec: the parts of \<open>useCborParser.ts\<close> (not among the source files
  at hand) that the spec names without fixing them far enough to compute them: the
  UTF-8 validator, the tag dispatcher's validation of an inner value (which may fail,
  or replace the value), the canonical re-encoding of a key, the type label and bounded
  value rendering of an entry, the path segment of a map key and of an array index, and
  the default options. Both decoding paths receive the same collaborators.
\<close>

record Collaborators =
  utf8_valid :: "buffer \<Rightarrow> bool"
  tag_semantics :: "DecodeOptions \<Rightarrow> nat \<Rightarrow> decoded \<Rightarrow> error + decoded"
  canonical_encoding :: "decoded \<Rightarrow> buffer"
  type_label_of :: "decoded \<Rightarrow> string"
  value_repr_of :: "decoded \<Rightarrow> string"
  key_segment :: "decoded \<Rightarrow> string"
  index_segment :: "nat \<Rightarrow> string"
  default_options :: DecodeOptions

text \<open>
  Modelled from the spec: the state the parsers of \<open>useCborParser.ts\<close> thread through a call:
  the current offset and the running output size of the limits accountant. A parser
  returns an error, or its value with the state after it; the source-map parsers return
  the entries they emitted as well.
\<close>

type_synonym pstate = "nat \<times> nat"
type_synonym 'a presult = "error + ('a \<times> pstate)"
type_synonym 'a presult_sm = "error + (('a \<times> SourceMapEntry list) \<times> pstate)"

text \<open>
  Sequencing of fallible steps: the first error is the result.
\<close>

definition thenE :: "error + 'a \<Rightarrow> ('a \<Rightarrow> error + 'b) \<Rightarrow> error + 'b" where
  "thenE r f = (case r of Inl e \<Rightarrow> Inl e | Inr x \<Rightarrow> f x)"

text \<open>
  Modelled from the spec: the byte reader of \<open>useCborParser.ts\<close>: a bounds-checked read
  of the initial byte, split into major type and additional information.
\<close>

definition read_header :: "buffer \<Rightarrow> nat \<Rightarrow> error + (int \<times> int)" where
  "read_header buf off =
     (if length buf \<le> off then Inl (UnexpectedEof (ReadByte off))
      else Inr (extractCborHeader (uint (buf ! off))))"

text \<open>
  Modelled from the spec: the fixed-width big-endian unsigned reads of the byte reader; a
  read reaching past the buffer fails with \<open>UnexpectedEof\<close>.
\<close>

definition read_uint :: "buffer \<Rightarrow> nat \<Rightarrow> nat \<Rightarrow> error + nat" where
  "read_uint buf off n =
     (if length buf < off + n then Inl (UnexpectedEof (ReadByte (length buf)))
      else Inr (nat (be_int (take n (drop off buf)))))"

text \<open>
  Modelled from the spec: the argument of a header in \<open>useCborParser.ts\<close>:
  additional information below 24 is the argument itself, 24 to 27 select a 1, 2, 4 or
  8 byte follow, 28 to 30 fail with \<open>Reserved\<close> and 31 is illegal outside collection
  framing. The result is the argument and the offset after it.
\<close>

definition read_argument :: "buffer \<Rightarrow> nat \<Rightarrow> int \<Rightarrow> error + (nat \<times> nat)" where
  "read_argument buf off ai =
     (if ai < 24 then Inr (nat ai, off + 1)
      else if ai = 24 then thenE (read_uint buf (off + 1) 1) (\<lambda>n. Inr (n, off + 2))
      else if ai = 25 then thenE (read_uint buf (off + 1) 2) (\<lambda>n. Inr (n, off + 3))
      else if ai = 26 then thenE (read_uint buf (off + 1) 4) (\<lambda>n. Inr (n, off + 5))
      else if ai = 27 then thenE (read_uint buf (off + 1) 8) (\<lambda>n. Inr (n, off + 9))
      else if ai = 31 then Inl UnexpectedBreak
      else Inl (Reserved ai))"

text \<open>
  Modelled from the spec: a definite-length string of \<open>useCborParser.ts\<close>: the length
  argument is read and compared with the per-string ceiling, that many bytes are taken,
  and the running output size is charged.
\<close>

definition definite_string :: "DecodeOptions \<Rightarrow> buffer \<Rightarrow> nat \<Rightarrow> int \<Rightarrow> pstate \<Rightarrow> buffer presult" where
  "definite_string opts buf limit ai s =
     (case s of (off, out) \<Rightarrow>
        thenE (read_argument buf off ai) (\<lambda>(len, off').
          if limit < len then Inl StringTooLong
          else if length buf < off' + len then Inl (UnexpectedEof (ReadByte (length buf)))
          else if max_output_size opts < out + len then Inl OutputTooLarge
          else Inr (take len (drop off' buf), (off' + len, out + len))))"

text \<open>
  Modelled from the spec: the chunk loop of an indefinite-length string in
  \<open>useCborParser.ts\<close>: definite-length chunks of the same major type are consumed
  and concatenated until a break byte; a nested indefinite chunk fails with
  \<open>NestedIndefinite\<close>, an exhausted buffer with \<open>MissingBreak\<close>. The ceiling applies to
  the concatenation.
\<close>

function string_chunks ::
    "DecodeOptions \<Rightarrow> buffer \<Rightarrow> int \<Rightarrow> nat \<Rightarrow> buffer \<Rightarrow> pstate \<Rightarrow> buffer presult" where
  "string_chunks opts buf mt limit acc (off, out) =
     (if length buf \<le> off then Inl MissingBreak
      else if buf ! off = 0xff then Inr (acc, (off + 1, out))
      else case extractCborHeader (uint (buf ! off)) of (m, ai) \<Rightarrow>
        if m \<noteq> mt \<or> ai = 31 then Inl NestedIndefinite
        else case definite_string opts buf (limit - length acc) ai (off, out) of
               Inl e \<Rightarrow> Inl e
             | Inr (chunk, s') \<Rightarrow> string_chunks opts buf mt limit (acc @ chunk) s')"
  by pat_completeness auto
termination
  by (relation "measure (\<lambda>(opts, buf, mt, limit, acc, (off, out)). length buf - off)")
     (auto simp: definite_string_def read_argument_def read_uint_def thenE_def
        split: if_splits sum.splits prod.splits)

text \<open>
  Modelled from the spec: the byte and text string parser of \<open>useCborParser.ts\<close>, which
  requires \<open>allow_indefinite\<close> for the indefinite form.
\<close>

definition parse_string ::
    "DecodeOptions \<Rightarrow> buffer \<Rightarrow> int \<Rightarrow> nat \<Rightarrow> int \<Rightarrow> pstate \<Rightarrow> buffer presult" where
  "parse_string opts buf mt limit ai s =
     (case s of (off, out) \<Rightarrow>
        if ai = 31 then
          (if \<not> allow_indefinite opts then Inl IndefiniteDisallowed
           else string_chunks opts buf mt limit [] (off + 1, out))
        else definite_string opts buf limit ai s)"

text \<open>
  Modelled from the spec: the item loop of a definite-length array in
  \<open>useCborParser.ts\<close>: exactly the declared number of items is parsed, each by the
  parser of the next depth.
\<close>

fun def_items :: "(pstate \<Rightarrow> decoded presult) \<Rightarrow> nat \<Rightarrow> pstate \<Rightarrow> decoded list presult" where
  "def_items item 0 s = Inr ([], s)"
| "def_items item (Suc n) s =
     (case item s of
        Inl e \<Rightarrow> Inl e
      | Inr (v, s') \<Rightarrow>
          (case def_items item n s' of
             Inl e \<Rightarrow> Inl e
           | Inr (vs, s'') \<Rightarrow> Inr (v # vs, s'')))"

text \<open>
  Modelled from the spec: the item loop of an indefinite-length array in
  \<open>useCborParser.ts\<close>: items are parsed until a break byte at an item position; each
  streamed item counts against the size ceiling (the budget), and an exhausted buffer
  fails with \<open>MissingBreak\<close>.
\<close>

fun indef_items ::
    "buffer \<Rightarrow> (pstate \<Rightarrow> decoded presult) \<Rightarrow> nat \<Rightarrow> pstate \<Rightarrow> decoded list presult" where
  "indef_items buf item 0 (off, out) =
     (if length buf \<le> off then Inl MissingBreak
      else if buf ! off = 0xff then Inr ([], (off + 1, out))
      else Inl ArrayTooLarge)"
| "indef_items buf item (Suc budget) (off, out) =
     (if length buf \<le> off then Inl MissingBreak
      else if buf ! off = 0xff then Inr ([], (off + 1, out))
      else case item (off, out) of
             Inl e \<Rightarrow> Inl e
           | Inr (v, s') \<Rightarrow>
               (case indef_items buf item budget s' of
                  Inl e \<Rightarrow> Inl e
                | Inr (vs, s'') \<Rightarrow> Inr (v # vs, s'')))"

text \<open>
  Modelled from the spec: the array parser of \<open>useCborParser.ts\<close>: the declared count is
  compared with \<open>max_array_length\<close> before any item is parsed; the indefinite form
  requires \<open>allow_indefinite\<close>. The flag returned is the \<open>indefinite\<close> flag.
\<close>

definition parse_array ::
    "DecodeOptions \<Rightarrow> buffer \<Rightarrow> (pstate \<Rightarrow> decoded presult) \<Rightarrow> int \<Rightarrow> pstate
      \<Rightarrow> (decoded list \<times> bool) presult" where
  "parse_array opts buf item ai s =
     (case s of (off, out) \<Rightarrow>
        if ai = 31 then
          (if \<not> allow_indefinite opts then Inl IndefiniteDisallowed
           else thenE (indef_items buf item (max_array_length opts) (off + 1, out))
                  (\<lambda>(vs, s'). Inr ((vs, True), s')))
        else thenE (read_argument buf off ai) (\<lambda>(n, off').
               if max_array_length opts < n then Inl ArrayTooLarge
               else thenE (def_items item n (off', out)) (\<lambda>(vs, s'). Inr ((vs, False), s'))))"

text \<open>
  Modelled from the spec: a map entry as the map parser of \<open>useCborParser.ts\<close> holds it
  while parsing: key, value and the raw encoded bytes of the key, captured as a slice.
\<close>

type_synonym map_entry = "decoded \<times> decoded \<times> buffer"

text \<open>
  Modelled from the spec: the slice of the input between two offsets, as captured for a key
  in \<open>useCborParser.ts\<close>.
\<close>

definition raw_slice :: "buffer \<Rightarrow> nat \<Rightarrow> nat \<Rightarrow> buffer" where
  "raw_slice buf lo hi = take (hi - lo) (drop lo buf)"

text \<open>
  Modelled from the spec: the pair loop of a definite-length map in \<open>useCborParser.ts\<close>.
\<close>

fun def_pairs ::
    "buffer \<Rightarrow> (pstate \<Rightarrow> decoded presult) \<Rightarrow> nat \<Rightarrow> pstate \<Rightarrow> map_entry list presult" where
  "def_pairs buf item 0 s = Inr ([], s)"
| "def_pairs buf item (Suc n) s =
     (case item s of
        Inl e \<Rightarrow> Inl e
      | Inr (k, s1) \<Rightarrow>
          (case item s1 of
             Inl e \<Rightarrow> Inl e
           | Inr (v, s2) \<Rightarrow>
               (case def_pairs buf item n s2 of
                  Inl e \<Rightarrow> Inl e
                | Inr (es, s3) \<Rightarrow> Inr ((k, v, raw_slice buf (fst s) (fst s1)) # es, s3))))"

text \<open>
  Modelled from the spec: the value position of a pair in an indefinite-length map of
  \<open>useCborParser.ts\<close>: a break between a key and its value fails with
  \<open>BreakInsideMapPair\<close>.
\<close>

definition pair_value ::
    "buffer \<Rightarrow> (pstate \<Rightarrow> decoded presult) \<Rightarrow> pstate \<Rightarrow> decoded presult" where
  "pair_value buf item s =
     (if length buf \<le> fst s then Inl MissingBreak
      else if buf ! fst s = 0xff then Inl BreakInsideMapPair
      else item s)"

text \<open>
  Modelled from the spec: the pair loop of an indefinite-length map in
  \<open>useCborParser.ts\<close>, with the running counter compared against the size ceiling.
\<close>

fun indef_pairs ::
    "buffer \<Rightarrow> (pstate \<Rightarrow> decoded presult) \<Rightarrow> nat \<Rightarrow> pstate \<Rightarrow> map_entry list presult" where
  "indef_pairs buf item 0 (off, out) =
     (if length buf \<le> off then Inl MissingBreak
      else if buf ! off = 0xff then Inr ([], (off + 1, out))
      else Inl MapTooLarge)"
| "indef_pairs buf item (Suc budget) (off, out) =
     (if length buf \<le> off then Inl MissingBreak
      else if buf ! off = 0xff then Inr ([], (off + 1, out))
      else case item (off, out) of
             Inl e \<Rightarrow> Inl e
           | Inr (k, s1) \<Rightarrow>
               (case pair_value buf item s1 of
                  Inl e \<Rightarrow> Inl e
                | Inr (v, s2) \<Rightarrow>
                    (case indef_pairs buf item budget s2 of
                       Inl e \<Rightarrow> Inl e
                     | Inr (es, s3) \<Rightarrow> Inr ((k, v, raw_slice buf off (fst s1)) # es, s3))))"

text \<open>
  Modelled from the spec: the length-lexicographic order of the canonical map ordering
  check in \<open>useCborParser.ts\<close>: the shorter encoding first, equal lengths compared
  byte-wise ascending.
\<close>

definition length_lex_less :: "buffer \<Rightarrow> buffer \<Rightarrow> bool" where
  "length_lex_less a b = (length a < length b \<or> (length a = length b \<and> lexordp (<) a b))"

text \<open>
  Modelled from the spec: the canonical ordering check of \<open>useCborParser.ts\<close> over each
  adjacent pair of key encodings.
\<close>

fun keys_in_order :: "buffer list \<Rightarrow> bool" where
  "keys_in_order (a # b # rest) = (length_lex_less a b \<and> keys_in_order (b # rest))"
| "keys_in_order _ = True"

text \<open>
  Modelled from the spec: the duplicate-key detector and the canonical key-ordering
  validator of \<open>useCborParser.ts\<close>: keys are compared by their raw encoded bytes, and
  in canonical mode their canonical encodings must ascend.
\<close>

definition check_keys :: "Collaborators \<Rightarrow> DecodeOptions \<Rightarrow> map_entry list \<Rightarrow> error + unit" where
  "check_keys C opts entries =
     (if \<not> distinct (map (\<lambda>(k, v, raw). raw) entries) then Inl DuplicateKey
      else if validate_canonical opts
              \<and> \<not> keys_in_order (map (\<lambda>(k, v, raw). canonical_encoding C k) entries)
        then Inl NonCanonicalKeyOrder
      else Inr ())"

text \<open>
  Modelled from the spec: the map parser of \<open>useCborParser.ts\<close>: the declared count is
  compared with \<open>max_map_size\<close>, the indefinite form requires \<open>allow_indefinite\<close>, and
  the keys are checked once the pairs are parsed.
\<close>

definition parse_map ::
    "Collaborators \<Rightarrow> DecodeOptions \<Rightarrow> buffer \<Rightarrow> (pstate \<Rightarrow> decoded presult) \<Rightarrow> int \<Rightarrow> pstate
      \<Rightarrow> (map_entry list \<times> bool) presult" where
  "parse_map C opts buf item ai s =
     (case s of (off, out) \<Rightarrow>
        thenE
          (if ai = 31 then
             (if \<not> allow_indefinite opts then Inl IndefiniteDisallowed
              else thenE (indef_pairs buf item (max_map_size opts) (off + 1, out))
                     (\<lambda>(es, s'). Inr ((es, True), s')))
           else thenE (read_argument buf off ai) (\<lambda>(n, off').
                  if max_map_size opts < n then Inl MapTooLarge
                  else thenE (def_pairs buf item n (off', out)) (\<lambda>(es, s'). Inr ((es, False), s'))))
          (\<lambda>((es, indef), s'). thenE (check_keys C opts es) (\<lambda>_. Inr ((es, indef), s'))))"

text \<open>
  Modelled from the spec: the dispatch of major type 7 in \<open>useCborParser.ts\<close> to the
  float and simple value parser, which is the code of \<open>useCborFloat.ts\<close> above,
  called with the canonical flag of the options.
\<close>

definition parse_major7 :: "DecodeOptions \<Rightarrow> buffer \<Rightarrow> pstate \<Rightarrow> decoded presult" where
  "parse_major7 opts buf s =
     (case s of (off, out) \<Rightarrow>
        case fst (parseFromBuffer buf off
                    (Some \<lparr>validateCanonical = Some (validate_canonical opts), strict = None\<rparr>)) of
          Inl e \<Rightarrow> Inl e
        | Inr res \<Rightarrow> Inr (Major7 (value res), (off + bytesRead res, out)))"

text \<open>
  Modelled from the spec: the generic dispatcher of \<open>useCborParser.ts\<close> at one depth.
  \<open>inner\<close> is the dispatcher for the values inside an array, a map or a tag; it is
  \<open>None\<close> when the depth ceiling is reached, where these three fail with
  \<open>DepthExceeded\<close>. A tag parses its inner value by the dispatcher and then runs the
  tag-specific validation.
\<close>

definition parse_level ::
    "Collaborators \<Rightarrow> DecodeOptions \<Rightarrow> buffer \<Rightarrow> (pstate \<Rightarrow> decoded presult) option \<Rightarrow> pstate
      \<Rightarrow> decoded presult" where
  "parse_level C opts buf inner s =
     (case s of (off, out) \<Rightarrow>
        thenE (read_header buf off) (\<lambda>(mt, ai).
          if mt = 0 then
            thenE (read_argument buf off ai) (\<lambda>(n, off'). Inr (Unsigned n, (off', out)))
          else if mt = 1 then
            thenE (read_argument buf off ai) (\<lambda>(n, off'). Inr (Negative (- 1 - int n), (off', out)))
          else if mt = 2 then
            thenE (parse_string opts buf mt (max_byte_string_length opts) ai s)
              (\<lambda>(bytes, s'). Inr (Bytes bytes, s'))
          else if mt = 3 then
            thenE (parse_string opts buf mt (max_text_string_length opts) ai s)
              (\<lambda>(bytes, s').
                 if strict_utf8 opts \<and> \<not> utf8_valid C bytes then Inl InvalidUtf8
                 else Inr (Text bytes, s'))
          else if mt = 4 then
            (case inner of
               None \<Rightarrow> Inl DepthExceeded
             | Some item \<Rightarrow>
                 thenE (parse_array opts buf item ai s) (\<lambda>((vs, indef), s'). Inr (Array vs indef, s')))
          else if mt = 5 then
            (case inner of
               None \<Rightarrow> Inl DepthExceeded
             | Some item \<Rightarrow>
                 thenE (parse_map C opts buf item ai s)
                   (\<lambda>((es, indef), s'). Inr (Map (map (\<lambda>(k, v, raw). (k, v)) es) indef, s')))
          else if mt = 6 then
            (case inner of
               None \<Rightarrow> Inl DepthExceeded
             | Some item \<Rightarrow>
                 thenE (read_argument buf off ai) (\<lambda>(tag, off').
                   thenE (item (off', out)) (\<lambda>(v, s').
                     thenE (tag_semantics C opts tag v) (\<lambda>v'. Inr (v', s')))))
          else parse_major7 opts buf s))"

text \<open>
  Modelled from the spec: the recursion of the dispatcher in \<open>useCborParser.ts\<close>, bounded
  by \<open>max_depth\<close>: the argument is the depth still available.
\<close>

primrec parse_value ::
    "Collaborators \<Rightarrow> DecodeOptions \<Rightarrow> buffer \<Rightarrow> nat \<Rightarrow> pstate \<Rightarrow> decoded presult" where
  "parse_value C opts buf 0 = parse_level C opts buf None"
| "parse_value C opts buf (Suc depth) = parse_level C opts buf (Some (parse_value C opts buf depth))"

text \<open>
  Modelled from the spec: the result \<open>{value, bytesRead}\<close> of \<open>parse\<close> in \<open>types.ts\<close>,
  which is not among the source files at hand.
\<close>

record DecodeResult =
  decoded_value :: decoded
  bytes_read :: nat

text \<open>
  Modelled from the spec: the result \<open>{value, bytesRead, sourceMap}\<close> of
  \<open>parseWithSourceMap\<close> in \<open>types.ts\<close>, which is not among the source files at hand.
\<close>

record DecodeResultWithMap = DecodeResult +
  source_map :: "SourceMapEntry list"

text \<open>
  Modelled from the spec: \<open>parse\<close> of \<open>useCborParser.ts\<close>, which is not among the source
  files at hand: hex to bytes, then the dispatcher at offset 0 with the options given or
  the defaults.
\<close>

definition spec_parse :: "Collaborators \<Rightarrow> string \<Rightarrow> DecodeOptions option \<Rightarrow> error + DecodeResult" where
  "spec_parse C hexString options =
     (let opts = (case options of None \<Rightarrow> default_options C | Some given \<Rightarrow> given)
      in thenE (hexToBytes hexString) (\<lambda>buf.
           thenE (parse_value C opts buf (max_depth opts) (0, 0)) (\<lambda>(v, s).
             Inr \<lparr>decoded_value = v, bytes_read = fst s\<rparr>)))"

text \<open>
  Modelled from the spec: a dispatcher of the source-map parser in \<open>useCborParser.ts\<close>, which
  takes the path of the value it parses and the path of its parent.
\<close>

type_synonym item_sm = "string \<Rightarrow> string option \<Rightarrow> pstate \<Rightarrow> decoded presult_sm"

text \<open>
  Modelled from the spec: the entry the source-map parser of \<open>useCborParser.ts\<close> records for
  a value: its path, byte range, major type, label, rendering, parent and children.
\<close>

definition mk_entry ::
    "Collaborators \<Rightarrow> string \<Rightarrow> string option \<Rightarrow> nat \<Rightarrow> nat \<Rightarrow> int \<Rightarrow> decoded \<Rightarrow> string list
      \<Rightarrow> SourceMapEntry" where
  "mk_entry C path parent off off' mt v kids =
     \<lparr>entry_path = path, entry_start = off, entry_end = off', entry_major_type = mt,
      entry_type_label = type_label_of C v, entry_value_repr = value_repr_of C v,
      entry_parent = parent, entry_children = kids\<rparr>"

text \<open>
  Modelled from the spec: the item loop of a definite-length array in the source-map parser
  of \<open>useCborParser.ts\<close>; the path of item \<open>i\<close> is the array's path followed by the
  index segment, and the entries of the items are collected in input order.
\<close>

fun def_items_sm ::
    "Collaborators \<Rightarrow> item_sm \<Rightarrow> string \<Rightarrow> nat \<Rightarrow> nat \<Rightarrow> pstate \<Rightarrow> decoded list presult_sm" where
  "def_items_sm C item path i 0 s = Inr (([], []), s)"
| "def_items_sm C item path i (Suc n) s =
     (case item (path @ index_segment C i) (Some path) s of
        Inl e \<Rightarrow> Inl e
      | Inr ((v, es), s') \<Rightarrow>
          (case def_items_sm C item path (Suc i) n s' of
             Inl e \<Rightarrow> Inl e
           | Inr ((vs, ess), s'') \<Rightarrow> Inr ((v # vs, es @ ess), s'')))"

text \<open>
  Modelled from the spec: the item loop of an indefinite-length array in the source-map
  parser of \<open>useCborParser.ts\<close>.
\<close>

fun indef_items_sm ::
    "Collaborators \<Rightarrow> buffer \<Rightarrow> item_sm \<Rightarrow> string \<Rightarrow> nat \<Rightarrow> nat \<Rightarrow> pstate
      \<Rightarrow> decoded list presult_sm" where
  "indef_items_sm C buf item path i 0 (off, out) =
     (if length buf \<le> off then Inl MissingBreak
      else if buf ! off = 0xff then Inr (([], []), (off + 1, out))
      else Inl ArrayTooLarge)"
| "indef_items_sm C buf item path i (Suc budget) (off, out) =
     (if length buf \<le> off then Inl MissingBreak
      else if buf ! off = 0xff then Inr (([], []), (off + 1, out))
      else case item (path @ index_segment C i) (Some path) (off, out) of
             Inl e \<Rightarrow> Inl e
           | Inr ((v, es), s') \<Rightarrow>
               (case indef_items_sm C buf item path (Suc i) budget s' of
                  Inl e \<Rightarrow> Inl e
                | Inr ((vs, ess), s'') \<Rightarrow> Inr ((v # vs, es @ ess), s'')))"

text \<open>
  Modelled from the spec: the array parser of the source-map parser in
  \<open>useCborParser.ts\<close> (\<open>parseArrayWithMap\<close>), with the same ceilings as the direct
  one.
\<close>

definition parse_array_sm ::
    "Collaborators \<Rightarrow> DecodeOptions \<Rightarrow> buffer \<Rightarrow> item_sm \<Rightarrow> string \<Rightarrow> int \<Rightarrow> pstate
      \<Rightarrow> (decoded list \<times> bool) presult_sm" where
  "parse_array_sm C opts buf item path ai s =
     (case s of (off, out) \<Rightarrow>
        if ai = 31 then
          (if \<not> allow_indefinite opts then Inl IndefiniteDisallowed
           else thenE (indef_items_sm C buf item path 0 (max_array_length opts) (off + 1, out))
                  (\<lambda>((vs, es), s'). Inr (((vs, True), es), s')))
        else thenE (read_argument buf off ai) (\<lambda>(n, off').
               if max_array_length opts < n then Inl ArrayTooLarge
               else thenE (def_items_sm C item path 0 n (off', out))
                      (\<lambda>((vs, es), s'). Inr (((vs, False), es), s'))))"

text \<open>
  Modelled from the spec: the pair loop of a definite-length map in the source-map parser
  of \<open>useCborParser.ts\<close>. A key is parsed at the map's own path and leaves no entry;
  the value's path is the map's path followed by the key segment.
\<close>

fun def_pairs_sm ::
    "Collaborators \<Rightarrow> buffer \<Rightarrow> item_sm \<Rightarrow> string \<Rightarrow> nat \<Rightarrow> pstate
      \<Rightarrow> map_entry list presult_sm" where
  "def_pairs_sm C buf item path 0 s = Inr (([], []), s)"
| "def_pairs_sm C buf item path (Suc n) s =
     (case item path (Some path) s of
        Inl e \<Rightarrow> Inl e
      | Inr ((k, kes), s1) \<Rightarrow>
          (case item (path @ key_segment C k) (Some path) s1 of
             Inl e \<Rightarrow> Inl e
           | Inr ((v, es), s2) \<Rightarrow>
               (case def_pairs_sm C buf item path n s2 of
                  Inl e \<Rightarrow> Inl e
                | Inr ((ps, ess), s3) \<Rightarrow>
                    Inr (((k, v, raw_slice buf (fst s) (fst s1)) # ps, es @ ess), s3))))"

text \<open>
  Modelled from the spec: the value position of a pair in an indefinite-length map of the
  source-map parser.
\<close>

definition pair_value_sm ::
    "buffer \<Rightarrow> item_sm \<Rightarrow> string \<Rightarrow> string option \<Rightarrow> pstate \<Rightarrow> decoded presult_sm" where
  "pair_value_sm buf item path parent s =
     (if length buf \<le> fst s then Inl MissingBreak
      else if buf ! fst s = 0xff then Inl BreakInsideMapPair
      else item path parent s)"

text \<open>
  Modelled from the spec: the pair loop of an indefinite-length map in the source-map
  parser of \<open>useCborParser.ts\<close>.
\<close>

fun indef_pairs_sm ::
    "Collaborators \<Rightarrow> buffer \<Rightarrow> item_sm \<Rightarrow> string \<Rightarrow> nat \<Rightarrow> pstate
      \<Rightarrow> map_entry list presult_sm" where
  "indef_pairs_sm C buf item path 0 (off, out) =
     (if length buf \<le> off then Inl MissingBreak
      else if buf ! off = 0xff then Inr (([], []), (off + 1, out))
      else Inl MapTooLarge)"
| "indef_pairs_sm C buf item path (Suc budget) (off, out) =
     (if length buf \<le> off then Inl MissingBreak
      else if buf ! off = 0xff then Inr (([], []), (off + 1, out))
      else case item path (Some path) (off, out) of
             Inl e \<Rightarrow> Inl e
           | Inr ((k, kes), s1) \<Rightarrow>
               (case pair_value_sm buf item (path @ key_segment C k) (Some path) s1 of
                  Inl e \<Rightarrow> Inl e
                | Inr ((v, es), s2) \<Rightarrow>
                    (case indef_pairs_sm C buf item path budget s2 of
                       Inl e \<Rightarrow> Inl e
                     | Inr ((ps, ess), s3) \<Rightarrow>
                         Inr (((k, v, raw_slice buf off (fst s1)) # ps, es @ ess), s3))))"

text \<open>
  Modelled from the spec: the map parser of the source-map parser in \<open>useCborParser.ts\<close>
  (\<open>parseMapWithMap\<close>).
\<close>

definition parse_map_sm ::
    "Collaborators \<Rightarrow> DecodeOptions \<Rightarrow> buffer \<Rightarrow> item_sm \<Rightarrow> string \<Rightarrow> int \<Rightarrow> pstate
      \<Rightarrow> (map_entry list \<times> bool) presult_sm" where
  "parse_map_sm C opts buf item path ai s =
     (case s of (off, out) \<Rightarrow>
        thenE
          (if ai = 31 then
             (if \<not> allow_indefinite opts then Inl IndefiniteDisallowed
              else thenE (indef_pairs_sm C buf item path (max_map_size opts) (off + 1, out))
                     (\<lambda>((ps, es), s'). Inr (((ps, True), es), s')))
           else thenE (read_argument buf off ai) (\<lambda>(n, off').
                  if max_map_size opts < n then Inl MapTooLarge
                  else thenE (def_pairs_sm C buf item path n (off', out))
                         (\<lambda>((ps, es), s'). Inr (((ps, False), es), s'))))
          (\<lambda>(((ps, indef), es), s').
             thenE (check_keys C opts ps) (\<lambda>_. Inr (((ps, indef), es), s'))))"

text \<open>
  Modelled from the spec: a value without children in the source-map parser: the value is parsed
  as on the direct path and one entry is recorded for it.
\<close>

definition leaf_sm ::
    "Collaborators \<Rightarrow> string \<Rightarrow> string option \<Rightarrow> nat \<Rightarrow> int \<Rightarrow> decoded presult \<Rightarrow> decoded presult_sm" where
  "leaf_sm C path parent off mt r =
     thenE r (\<lambda>(v, s'). Inr ((v, [mk_entry C path parent off (fst s') mt v []]), s'))"

text \<open>
  Modelled from the spec: the dispatcher of the source-map parser in
  \<open>useCborParser.ts\<close> at one depth. Entries are emitted in pre-order: the entry of a
  collection or tag before the entries of its children.
\<close>

definition parse_level_sm ::
    "Collaborators \<Rightarrow> DecodeOptions \<Rightarrow> buffer \<Rightarrow> item_sm option \<Rightarrow> string \<Rightarrow> string option
      \<Rightarrow> pstate \<Rightarrow> decoded presult_sm" where
  "parse_level_sm C opts buf inner path parent s =
     (case s of (off, out) \<Rightarrow>
        thenE (read_header buf off) (\<lambda>(mt, ai).
          if mt = 0 then
            leaf_sm C path parent off mt
              (thenE (read_argument buf off ai) (\<lambda>(n, off'). Inr (Unsigned n, (off', out))))
          else if mt = 1 then
            leaf_sm C path parent off mt
              (thenE (read_argument buf off ai)
                 (\<lambda>(n, off'). Inr (Negative (- 1 - int n), (off', out))))
          else if mt = 2 then
            leaf_sm C path parent off mt
              (thenE (parse_string opts buf mt (max_byte_string_length opts) ai s)
                 (\<lambda>(bytes, s'). Inr (Bytes bytes, s')))
          else if mt = 3 then
            leaf_sm C path parent off mt
              (thenE (parse_string opts buf mt (max_text_string_length opts) ai s)
                 (\<lambda>(bytes, s').
                    if strict_utf8 opts \<and> \<not> utf8_valid C bytes then Inl InvalidUtf8
                    else Inr (Text bytes, s')))
          else if mt = 4 then
            (case inner of
               None \<Rightarrow> Inl DepthExceeded
             | Some item \<Rightarrow>
                 thenE (parse_array_sm C opts buf item path ai s) (\<lambda>(((vs, indef), es), s').
                   Inr ((Array vs indef,
                         mk_entry C path parent off (fst s') mt (Array vs indef)
                           (map (\<lambda>i. path @ index_segment C i) [0 ..< length vs]) # es), s')))
          else if mt = 5 then
            (case inner of
               None \<Rightarrow> Inl DepthExceeded
             | Some item \<Rightarrow>
                 thenE (parse_map_sm C opts buf item path ai s) (\<lambda>(((ps, indef), es), s').
                   Inr ((Map (map (\<lambda>(k, v, raw). (k, v)) ps) indef,
                         mk_entry C path parent off (fst s') mt
                           (Map (map (\<lambda>(k, v, raw). (k, v)) ps) indef)
                           (map (\<lambda>(k, v, raw). path @ key_segment C k) ps) # es), s')))
          else if mt = 6 then
            (case inner of
               None \<Rightarrow> Inl DepthExceeded
             | Some item \<Rightarrow>
                 thenE (read_argument buf off ai) (\<lambda>(tag, off').
                   thenE (item (path @ ''.value'') (Some path) (off', out)) (\<lambda>((v, es), s').
                     thenE (tag_semantics C opts tag v) (\<lambda>v'.
                       Inr ((v', mk_entry C path parent off (fst s') mt v' [path @ ''.value''] # es),
                            s')))))
          else leaf_sm C path parent off mt (parse_major7 opts buf s)))"

text \<open>
  Modelled from the spec: the recursion of the source-map dispatcher, bounded by
  \<open>max_depth\<close>.
\<close>

primrec parse_value_sm ::
    "Collaborators \<Rightarrow> DecodeOptions \<Rightarrow> buffer \<Rightarrow> nat \<Rightarrow> item_sm" where
  "parse_value_sm C opts buf 0 = parse_level_sm C opts buf None"
| "parse_value_sm C opts buf (Suc depth) =
     parse_level_sm C opts buf (Some (parse_value_sm C opts buf depth))"

text \<open>
  Modelled from the spec: \<open>parseWithSourceMap\<close> of \<open>useCborParser.ts\<close>, which is
  not among the source files at hand; the root's path is empty.
\<close>

definition spec_parseWithSourceMap ::
    "Collaborators \<Rightarrow> string \<Rightarrow> DecodeOptions option \<Rightarrow> error + DecodeResultWithMap" where
  "spec_parseWithSourceMap C hexString options =
     (let opts = (case options of None \<Rightarrow> default_options C | Some given \<Rightarrow> given)
      in thenE (hexToBytes hexString) (\<lambda>buf.
           thenE (parse_value_sm C opts buf (max_depth opts) [] None (0, 0)) (\<lambda>((v, es), s).
             Inr \<lparr>decoded_value = v, bytes_read = fst s, source_map = es\<rparr>)))"

text \<open>
  Modelled from the spec: the object \<open>useCborParser()\<close> returns, with the two functions
  \<open>decode\<close> and \<open>decodeWithSourceMap\<close> of \<open>index.ts\<close> call.
\<close>

definition useCborParser ::
    "Collaborators \<Rightarrow> (DecodeOptions, error + DecodeResult, error + DecodeResultWithMap) CborParser" where
  "useCborParser C =
     \<lparr>parser_parse = spec_parse C, parser_parseWithSourceMap = spec_parseWithSourceMap C\<rparr>"

text \<open>
  \<open>forget\<close> drops the entries from a result of the source-map parser, and
  \<open>agrees\<close> says that a source-map dispatcher, at every path, returns what the direct
  dispatcher returns.
\<close>

definition forget :: "'a presult_sm \<Rightarrow> 'a presult" where
  "forget r = (case r of Inl e \<Rightarrow> Inl e | Inr ((v, es), s) \<Rightarrow> Inr (v, s))"

definition agrees :: "item_sm \<Rightarrow> (pstate \<Rightarrow> decoded presult) \<Rightarrow> bool" where
  "agrees item_sm item = (\<forall>p q s. forget (item_sm p q s) = item s)"

text \<open>
  Collaborators for running the two paths on examples: every text string counts as
  valid, every tag passes through as an opaque tagged value, and the limits are small.
\<close>

definition plain_collaborators :: Collaborators where
  "plain_collaborators =
     \<lparr>utf8_valid = (\<lambda>_. True),
      tag_semantics = (\<lambda>_ tag v. Inr (Tagged tag v)),
      canonical_encoding = (\<lambda>_. []),
      type_label_of = (\<lambda>_. []),
      value_repr_of = (\<lambda>_. []),
      key_segment = (\<lambda>_. ''.k''),
      index_segment = (\<lambda>_. ''[i]''),
      default_options =
        \<lparr>max_depth = 1, max_array_length = 2, max_map_size = 2, max_byte_string_length = 4,
         max_text_string_length = 4, max_output_size = 8, allow_indefinite = True,
         strict_utf8 = False, validate_canonical = False\<rparr>\<rparr>"

section \<open>Rounding and exact arithmetic\<close>

lemma two_powi_less_iff: "(2::rat) powi a < 2 powi b \<longleftrightarrow> a < b"
  by (metis linorder_not_less one_less_numeral_iff order_less_irrefl power_int_increasing power_int_strict_increasing semiring_norm(76) order.strict_iff_order order_le_less_trans)

lemma two_powi_le_iff: "(2::rat) powi a \<le> 2 powi b \<longleftrightarrow> a \<le> b"
  by (metis two_powi_less_iff linorder_not_less)

lemma bitlen_powi_bounds:
  assumes "0 < p"
  shows "(2::rat) powi (bitlen p - 1) \<le> of_int p" and "of_int p < (2::rat) powi (bitlen p)"
proof -
  from assms have b1: "1 \<le> bitlen p" by (auto simp: bitlen_alt_def)
  from bitlen_bounds [OF assms]
  have lo: "2 ^ nat (bitlen p - 1) \<le> p" and hi: "p < 2 ^ nat (bitlen p)" by auto
  have "(of_int (2 ^ nat (bitlen p - 1)) :: rat) \<le> of_int p"
    using lo by (simp only: of_int_le_iff)
  then show "(2::rat) powi (bitlen p - 1) \<le> of_int p"
    using b1 by (simp add: power_int_nonneg_exp)
  have "(of_int p :: rat) < of_int (2 ^ nat (bitlen p))"
    using hi by (simp only: of_int_less_iff)
  then show "of_int p < (2::rat) powi (bitlen p)"
    using b1 by (simp add: power_int_nonneg_exp)
qed

lemma floor_log2_bounds:
  assumes "0 < r"
  shows "2 powi (floor_log2 r) \<le> r" and "r < 2 powi (floor_log2 r + 1)"
proof -
  obtain p q where pq: "quotient_of r = (p, q)" by force
  have q: "0 < q" using pq by (rule quotient_of_denom_pos)
  have r: "r = of_int p / of_int q" using pq by (rule quotient_of_div)
  have p: "0 < p" using assms q unfolding r by (simp add: zero_less_divide_iff)
  define d where "d = bitlen p - bitlen q"
  note P = bitlen_powi_bounds [OF p] and Q = bitlen_powi_bounds [OF q]
  have qpos: "(0::rat) < of_int q" using q by simp
  have "r < 2 powi (bitlen p) / 2 powi (bitlen q - 1)"
    unfolding r using P(2) Q(1) qpos p
    by (intro frac_less) auto
  also have "\<dots> = 2 powi (d + 1)"
    by (simp add: d_def power_int_diff [symmetric] algebra_simps)
  finally have up: "r < 2 powi (d + 1)" .
  have "2 powi (bitlen p - 1) / 2 powi (bitlen q) < r"
    unfolding r using P(1) Q(2) qpos p
    by (intro frac_less2) auto
  also have "2 powi (bitlen p - 1) / 2 powi (bitlen q) = (2::rat) powi (d - 1)"
    by (simp add: d_def power_int_diff [symmetric] algebra_simps)
  finally have lo: "2 powi (d - 1) < r" .
  have fl: "floor_log2 r = (if 2 powi d \<le> r then d else d - 1)"
    by (simp add: floor_log2_def pq d_def Let_def)
  show "2 powi (floor_log2 r) \<le> r" using lo by (simp add: fl less_imp_le)
  show "r < 2 powi (floor_log2 r + 1)" using up by (auto simp: fl)
qed

lemma floor_log2_eqI:
  assumes "2 powi e \<le> r" and "r < 2 powi (e + 1)"
  shows "floor_log2 r = e"
proof -
  have "0 < r" using assms(1) by (rule less_le_trans [rotated]) simp
  note B = floor_log2_bounds [OF this]
  have "2 powi (floor_log2 r) < (2::rat) powi (e + 1)" using B(1) assms(2) by (rule le_less_trans)
  then have 1: "floor_log2 r < e + 1" by (simp only: two_powi_less_iff)
  have "2 powi e < (2::rat) powi (floor_log2 r + 1)" using assms(1) B(2) by (rule le_less_trans)
  then have 2: "e < floor_log2 r + 1" by (simp only: two_powi_less_iff)
  from 1 2 show ?thesis by simp
qed

lemma round_half_even_of_int [simp]: "round_half_even (of_int n) = n"
  by (simp add: round_half_even_def)

lemma round_to_format_exact:
  assumes m: "m = of_int k * 2 powi j" and k: "0 < k" "k < 2 ^ p"
    and j: "emin - int p + 1 \<le> j" and top: "m < 2 powi (emax + 1)"
  shows "round_to_format p emin emax m = Some m"
proof -
  have mpos: "0 < m" using k by (simp add: m)
  have "m < of_int (2 ^ p) * 2 powi j"
    unfolding m using k(2) by (intro mult_strict_right_mono) (simp_all only: of_int_less_iff zero_less_power_int zero_less_numeral)
  also have "\<dots> = 2 powi (int p + j)" by (simp add: power_int_add)
  finally have "2 powi (floor_log2 m) < (2::rat) powi (int p + j)"
    using floor_log2_bounds(1) [OF mpos] by simp
  then have fl: "floor_log2 m < int p + j" by (simp only: two_powi_less_iff)
  define e where "e = max (floor_log2 m) emin"
  define n where "n = nat (j - (e - int p + 1))"
  have e: "e - int p + 1 \<le> j" using fl j by (auto simp: e_def)
  have "m / 2 powi (e - int p + 1) = of_int k * 2 powi (j - (e - int p + 1))"
    by (simp add: m power_int_diff)
  also have "\<dots> = of_int (k * 2 ^ n)"
    using e by (simp add: n_def power_int_nonneg_exp)
  finally have q: "m / 2 powi (e - int p + 1) = of_int (k * 2 ^ n)" .
  have "of_int (round_half_even (m / 2 powi (e - int p + 1))) * 2 powi (e - int p + 1) = m"
    unfolding q round_half_even_of_int unfolding q [symmetric] by simp
  then show ?thesis
    using mpos top by (simp add: round_to_format_def Let_def e_def [symmetric])
qed


lemma binary64_exact:
  assumes m: "m = of_int k * 2 powi j" and k: "0 \<le> k" "k < 2 ^ 53"
    and j: "- 1074 \<le> j" and top: "m < 2 powi 1024"
  shows "binary64 s m = Finite s m"
proof (cases "k = 0")
  case True
  then show ?thesis by (simp add: m binary64_def round_to_format_def)
next
  case False
  with k have "0 < k" by simp
  from round_to_format_exact [OF m this k(2), of "- 1022" 1023] j top
  show ?thesis by (simp add: binary64_def)
qed

lemma binary64_small:
  assumes m: "m = of_int k * 2 powi j" and k: "0 \<le> k" "k < 2 ^ 11"
    and j: "- 30 \<le> j" "j \<le> 20"
  shows "binary64 s m = Finite s m"
proof -
  have "(2::rat) powi j \<le> 2 powi 20" using j(2) by (simp only: two_powi_le_iff)
  then have "of_int k * 2 powi j \<le> (of_int k :: rat) * 2 powi 20"
    using k(1) by (intro mult_left_mono) simp_all
  also have "\<dots> < of_int (2 ^ 11) * 2 powi 20"
    using k(2) by (intro mult_strict_right_mono) (simp_all only: of_int_less_iff zero_less_power_int zero_less_numeral)
  also have "\<dots> \<le> 2 powi 1024" by simp
  finally have top: "m < 2 powi 1024" by (simp add: m)
  have "k < 2 ^ 53" using k(2) by simp
  from binary64_exact [OF m k(1) this _ top] j(1) show ?thesis by simp
qed

lemma ToInt32_id: "0 \<le> x \<Longrightarrow> x < 2 ^ 31 \<Longrightarrow> ToInt32 x = x"
  by (simp add: ToInt32_def)

lemma js_and_mod:
  assumes "0 \<le> v" "v < 2 ^ 31"
  shows "js_and v 0x03ff = v mod 2 ^ 10"
proof -
  have "(0x03ff :: int) = mask 10" by (simp add: mask_eq_exp_minus_1)
  then have "v AND 0x03ff = take_bit 10 v" by (simp only: take_bit_eq_mask)
  then show ?thesis using assms by (simp add: js_and_def ToInt32_id take_bit_eq_mod)
qed

lemma js_field:
  assumes "0 \<le> v" "v < 2 ^ 31" and c: "c = push_bit n (mask l)" "0 \<le> c" "c < 2 ^ 31" "n < 32"
  shows "js_sar (js_and v c) (int n) = v div 2 ^ n mod 2 ^ l"
proof -
  have a: "js_and v c = v AND c" using assms by (simp add: js_and_def ToInt32_id)
  have "0 \<le> v AND c" using assms by simp
  moreover have "v AND c \<le> c" using c(2) by (rule AND_upper2)
  ultimately have "ToInt32 (v AND c) = v AND c" using c(3) by (intro ToInt32_id) auto
  then have "js_sar (js_and v c) (int n) = drop_bit n (v AND c)"
    using c(4) by (simp add: js_sar_def a)
  also have "\<dots> = drop_bit n v AND mask l"
    by (simp add: drop_bit_and c(1) drop_bit_push_bit)
  also have "\<dots> = v div 2 ^ n mod 2 ^ l"
    by (simp add: take_bit_eq_mask [symmetric] take_bit_eq_mod drop_bit_eq_div)
  finally show ?thesis .
qed

lemma js_pattern16:
  assumes "0 \<le> x" "x < 256" "0 \<le> y" "y < 256"
  shows "js_or (js_shl x 8) y = x * 256 + y"
proof -
  have s: "js_shl x 8 = push_bit 8 x"
    using assms by (simp add: js_shl_def ToInt32_id push_bit_eq_mult)
  have d: "push_bit 8 x AND y = 0"
  proof -
    have "y = take_bit 8 y" using assms by (simp add: take_bit_int_eq_self)
    then have "push_bit 8 x AND y = push_bit 8 x AND take_bit 8 y" by simp
    also have "\<dots> = 0" by (simp add: bit_eq_iff bit_simps)
    finally show ?thesis .
  qed
  have "push_bit 8 x < 2 ^ 31" "0 \<le> push_bit 8 x" using assms by (simp_all add: push_bit_eq_mult)
  then show ?thesis
    using assms disjunctive_add_eq_or [OF d]
    by (simp add: js_or_def s ToInt32_id push_bit_eq_mult)
qed


lemma number_of_int_small: "\<bar>i\<bar> < 2 ^ 11 \<Longrightarrow> number_of_int i = Finite (i < 0) (of_int \<bar>i\<bar>)"
  unfolding number_of_int_def
  by (rule binary64_small [where k = "\<bar>i\<bar>" and j = 0]) simp_all

lemma Math_pow2_small: "- 30 \<le> k \<Longrightarrow> k \<le> 20 \<Longrightarrow> Math_pow2 k = Finite False (2 powi k)"
  unfolding Math_pow2_def
  by (rule binary64_small [where k = 1 and j = k]) simp_all

lemma float16_subnormal:
  assumes "0 < f" "f < 2 ^ 10" and that: "\<bar>sg\<bar> = 1"
  shows "js_mul (js_mul (number_of_int sg) (Math_pow2 (- 14)))
           (js_div (number_of_int f) (number_of_int 1024))
         = Finite (sg < 0) (2 powi (- 14) * (of_int f / 1024))"
proof -
  have sg: "number_of_int sg = Finite (sg < 0) 1"
    using that by (simp add: number_of_int_small)
  have f: "number_of_int f = Finite False (of_int f)"
    using assms by (simp add: number_of_int_small)
  have d: "binary64 False (of_int f / 1024) = Finite False (of_int f / 1024)"
    by (rule binary64_small [where k = f and j = "- 10"]) (use assms in \<open>simp_all add: power_int_minus_divide\<close>)
  have p: "binary64 (sg < 0) (2 powi (- 14)) = Finite (sg < 0) (2 powi (- 14))"
    by (rule binary64_small [where k = 1 and j = "- 14"]) simp_all
  have m: "binary64 (sg < 0) (2 powi (- 14) * of_int f / 1024) = Finite (sg < 0) (2 powi (- 14) * of_int f / 1024)"
    by (rule binary64_small [where k = f and j = "- 24"]) (use assms in \<open>simp_all add: power_int_minus_divide\<close>)
  show ?thesis
    using that by (simp add: sg f Math_pow2_small number_of_int_small d p m del: power_int_numeral_neg_numeral)
qed


lemma float16_normal:
  assumes "0 \<le> f" "f < 2 ^ 10" "0 < e" "e < 31" and that: "\<bar>sg\<bar> = 1"
  shows "js_mul (js_mul (number_of_int sg) (Math_pow2 (e - 15)))
           (js_add (number_of_int 1) (js_div (number_of_int f) (number_of_int 1024)))
         = Finite (sg < 0) (2 powi (e - 15) * (1 + of_int f / 1024))"
proof -
  have sg: "number_of_int sg = Finite (sg < 0) 1"
    using that by (simp add: number_of_int_small)
  have f: "number_of_int f = Finite False (of_int f)"
    using assms by (simp add: number_of_int_small)
  have d: "binary64 False (of_int f / 1024) = Finite False (of_int f / 1024)"
    by (rule binary64_small [where k = f and j = "- 10"]) (use assms in \<open>simp_all add: power_int_minus_divide\<close>)
  have a: "binary64 False (1 + of_int f / 1024) = Finite False (1 + of_int f / 1024)"
    by (rule binary64_small [where k = "1024 + f" and j = "- 10"]) (use assms in \<open>simp_all add: power_int_minus_divide field_simps\<close>)
  have p: "binary64 (sg < 0) (2 powi (e - 15)) = Finite (sg < 0) (2 powi (e - 15))"
    by (rule binary64_small [where k = 1 and j = "e - 15"]) (use assms in simp_all)
  have m: "binary64 (sg < 0) (2 powi (e - 15) * (1 + of_int f / 1024))
         = Finite (sg < 0) (2 powi (e - 15) * (1 + of_int f / 1024))"
    by (rule binary64_small [where k = "1024 + f" and j = "e - 25"])
       (use assms in \<open>simp_all add: power_int_diff field_simps\<close>)
  have pos: "0 < 1 + rat_of_int f / 1024" using assms(1) by (simp add: add_pos_nonneg)
  have "js_add (number_of_int 1) (js_div (number_of_int f) (number_of_int 1024))
        = Finite False (1 + of_int f / 1024)"
    using pos by (simp add: f number_of_int_small d a with_sign_def Let_def)
  moreover have "js_mul (number_of_int sg) (Math_pow2 (e - 15)) = Finite (sg < 0) (2 powi (e - 15))"
    using assms by (simp add: sg Math_pow2_small p)
  ultimately show ?thesis
    by (simp only: js_mul.simps simp_thms m)
qed


lemma bind_eff_simps [simp]:
  "bind_eff (Inl e, l) f = (Inl e, l)"
  "bind_eff (Inr x, l) f = (fst (f x), l @ snd (f x))"
  "bind_eff (ok x) f = f x"
  "bind_eff (throw e) f = throw e"
  "bind_eff (lift (Inr x)) f = f x"
  "bind_eff (lift (Inl e)) f = throw e"
  by (simp_all add: bind_eff_def ok_def throw_def lift_def split: prod.splits)

lemma readByte_in_range:
  "offset < length buffer \<Longrightarrow> readByte buffer offset = (Inr (uint (buffer ! offset)), [offset])"
  by (simp add: readByte_def)

lemma float16ToFloat64_eq:
  assumes "offset + 1 < length buffer"
  shows "float16ToFloat64 buffer offset =
         (Inr (ieee_binary16 (uint (buffer ! offset) * 256 + uint (buffer ! (offset + 1)))),
          [offset, offset + 1])"
proof -
  define x where "x = uint (buffer ! offset)"
  define y where "y = uint (buffer ! (offset + 1))"
  define v where "v = x * 256 + y"
  have x: "0 \<le> x" "x < 256" using uint_lt2p [of "buffer ! offset"] by (simp_all add: x_def)
  have y: "0 \<le> y" "y < 256" using uint_lt2p [of "buffer ! (offset + 1)"] by (simp_all add: y_def)
  have v: "0 \<le> v" "v < 2 ^ 16" using x y by (simp_all add: v_def)
  then have v31: "v < 2 ^ 31" by simp
  have pat: "js_or (js_shl x 8) y = v" using x y by (simp add: js_pattern16 v_def)
  define sign where "sign = v div 2 ^ 15 mod 2"
  define exponent where "exponent = v div 2 ^ 10 mod 2 ^ 5"
  define fraction where "fraction = v mod 2 ^ 10"
  have sg: "js_sar (js_and v 0x8000) 15 = sign"
    using js_field [OF v(1) v31, of "0x8000" 15 1] by (simp add: sign_def push_bit_eq_mult mask_eq_exp_minus_1)
  have ex: "js_sar (js_and v 0x7c00) 10 = exponent"
    using js_field [OF v(1) v31, of "0x7c00" 10 5] by (simp add: exponent_def push_bit_eq_mult mask_eq_exp_minus_1)
  have fr: "js_and v 0x03ff = fraction"
    using js_and_mod [OF v(1) v31] by (simp add: fraction_def)
  have sign: "sign = 0 \<or> sign = 1" by (auto simp: sign_def)
  have exponent: "0 \<le> exponent" "exponent < 32" by (simp_all add: exponent_def)
  have fraction: "0 \<le> fraction" "fraction < 2 ^ 10" by (simp_all add: fraction_def)
  have sub: "fraction \<noteq> 0 \<Longrightarrow>
      js_mul (js_mul (number_of_int (if sign = 0 then 1 else - 1)) (Math_pow2 (- 14)))
        (js_div (number_of_int fraction) (number_of_int 1024))
      = Finite (sign = 1) (2 powi (- 14) * (of_int fraction / 1024))"
    using float16_subnormal [of fraction "if sign = 0 then 1 else - 1"] fraction sign by auto
  have nor: "exponent \<noteq> 0 \<Longrightarrow> exponent \<noteq> 31 \<Longrightarrow>
      js_mul (js_mul (number_of_int (if sign = 0 then 1 else - 1)) (Math_pow2 (exponent - 15)))
        (js_add (number_of_int 1) (js_div (number_of_int fraction) (number_of_int 1024)))
      = Finite (sign = 1) (2 powi (exponent - 15) * (1 + of_int fraction / 1024))"
    using float16_normal [of fraction exponent "if sign = 0 then 1 else - 1"] fraction exponent sign
    by auto
  have "float16ToFloat64 buffer offset = (Inr (ieee_binary16 v), [offset, offset + 1])"
    using assms sign
    by (simp only: float16ToFloat64_def readByte_in_range x_def [symmetric] y_def [symmetric]
          bind_eff_simps pat Let_def sg ex fr ieee_binary16_def sign_def [symmetric]
          exponent_def [symmetric] fraction_def [symmetric] if_distrib [of number_of_int, symmetric])
       (auto simp: ok_def sub nor simp del: power_int_numeral_neg_numeral)
  then show ?thesis by (simp add: v_def x_def y_def)
qed

section \<open>Reads of the buffer\<close>

lemma extractCborHeader_f8 [simp]: "extractCborHeader 0xf8 = (7, 24)"
  and extractCborHeader_f9 [simp]: "extractCborHeader 0xf9 = (7, 25)"
  and extractCborHeader_fa [simp]: "extractCborHeader 0xfa = (7, 26)"
  and extractCborHeader_fb [simp]: "extractCborHeader 0xfb = (7, 27)"
  by (simp_all add: extractCborHeader_def js_sar_def js_and_def ToInt32_def drop_bit_eq_div)

lemma snd_throw [simp]: "snd (throw e) = []" and fst_throw [simp]: "fst (throw e) = Inl e"
  and snd_ok [simp]: "snd (ok x) = []" and fst_ok [simp]: "fst (ok x) = Inr x"
  and snd_lift [simp]: "snd (lift r) = []" and fst_lift [simp]: "fst (lift r) = r"
  by (simp_all add: throw_def ok_def lift_def)

lemma snd_bind_lift [simp]: "snd (bind_eff (lift r) f) = (case r of Inl e \<Rightarrow> [] | Inr x \<Rightarrow> snd (f x))"
  and fst_bind_lift [simp]: "fst (bind_eff (lift r) f) = (case r of Inl e \<Rightarrow> Inl e | Inr x \<Rightarrow> fst (f x))"
  by (cases r; simp)+

lemma parseSimpleFromBuffer_reads:
  "set (snd (parseSimpleFromBuffer buffer offset)) \<subseteq> {..< length buffer}"
  by (cases "offset < length buffer")
     (auto simp: parseSimpleFromBuffer_def readByte_def split: prod.splits)

lemma parseFloatFromBuffer_reads:
  "set (snd (parseFloatFromBuffer buffer offset options)) \<subseteq> {..< length buffer}"
  by (cases "offset < length buffer")
     (auto simp: parseFloatFromBuffer_def readByte_def float16ToFloat64_eq DataView_new_def
        DataView_getFloat32_def DataView_getFloat64_def DataView_read_def
        split: prod.splits sum.splits)

lemma parseFromBuffer_reads:
  "set (snd (parseFromBuffer buffer offset options)) \<subseteq> {..< length buffer}"
  using parseSimpleFromBuffer_reads [of buffer offset]
    parseFloatFromBuffer_reads [of buffer offset options]
  by (cases "offset < length buffer")
     (auto simp: parseFromBuffer_def readByte_def split: prod.splits)

section \<open>Interchange encodings round-trip\<close>

lemma length_be_bytes [simp]: "length (be_bytes n x) = n"
  by (induction n) simp_all

lemma be_int_be_bytes_mod: "be_int (be_bytes n x) = x mod 256 ^ n"
proof (induction n)
  case 0
  then show ?case by simp
next
  case (Suc n)
  have "uint (word_of_int (x div 256 ^ n) :: 8 word) = (x div 256 ^ n) mod 256"
    by (simp add: uint_word_of_int take_bit_eq_mod)
  then have "be_int (be_bytes (Suc n) x) = (x div 256 ^ n) mod 256 * 256 ^ n + x mod 256 ^ n"
    by (simp add: Suc)
  also have "\<dots> = x mod (256 ^ n * 256)"
    using zmod_zmult2_eq [of 256 x "256 ^ n"] by (simp only: mult.commute)
  finally show ?case by (simp only: power_Suc mult.commute)
qed

lemma be_int_be_bytes: "0 \<le> x \<Longrightarrow> x < 256 ^ n \<Longrightarrow> be_int (be_bytes n x) = x"
  by (simp add: be_int_be_bytes_mod)

lemma fields_decode:
  fixes E F b :: int
  assumes F: "0 \<le> F" "F < 2 ^ t" and E: "0 \<le> E" "E < 2 ^ w" and b: "b = 0 \<or> b = 1"
  defines "X \<equiv> b * 2 ^ (t + w) + E * 2 ^ t + F"
  shows "X mod 2 ^ t = F" and "X div 2 ^ t mod 2 ^ w = E" and "X div 2 ^ (t + w) mod 2 = b"
    and "0 \<le> X" and "X < 2 ^ (t + w + 1)"
proof -
  have X1: "X = F + (b * 2 ^ w + E) * 2 ^ t" by (simp add: X_def power_add algebra_simps)
  show 1: "X mod 2 ^ t = F" using F by (simp add: X1)
  have d: "X div 2 ^ t = b * 2 ^ w + E" using F by (simp add: X1)
  show "X div 2 ^ t mod 2 ^ w = E" using E by (simp add: d)
  have "E * 2 ^ t + F < (E + 1) * 2 ^ t" using F by (simp add: algebra_simps)
  also have "\<dots> \<le> 2 ^ w * 2 ^ t" using E by (intro mult_right_mono) simp_all
  finally have lt: "E * 2 ^ t + F < 2 ^ (t + w)" by (simp add: power_add mult.commute)
  have ge: "0 \<le> E * 2 ^ t + F" using E F by simp
  have X2: "X = (E * 2 ^ t + F) + b * 2 ^ (t + w)" by (simp add: X_def)
  have "X div 2 ^ (t + w) = b" unfolding X2 using lt ge by (simp add: div_pos_pos_trivial)
  then show "X div 2 ^ (t + w) mod 2 = b" using b by auto
  show "0 \<le> X" using ge b by (auto simp: X2)
  show "X < 2 ^ (t + w + 1)" using lt ge b by (auto simp: X2)
qed


lemma ieee_value_fields:
  fixes E F b :: int
  assumes F: "0 \<le> F" "F < 2 ^ t" and E: "0 \<le> E" "E < 2 ^ w - 1"
  shows "ieee_value t w ((if s then 2 ^ (t + w) else 0) + E * 2 ^ t + F) =
         (if E = 0 then Finite s (of_int F * 2 powi (1 - (2 ^ (w - 1) - 1) - int t))
          else Finite s (of_int (2 ^ t + F) * 2 powi (E - (2 ^ (w - 1) - 1) - int t)))"
proof -
  define b :: int where "b = (if s then 1 else 0)"
  have b: "b = 0 \<or> b = 1" by (simp add: b_def)
  have E': "E < 2 ^ w" using E by simp
  have X: "(if s then 2 ^ (t + w) else 0) + E * 2 ^ t + F = b * 2 ^ (t + w) + E * 2 ^ t + F"
    by (simp add: b_def)
  note fd = fields_decode [OF F E(1) E' b]
  have s: "(b = 1) = s" by (simp add: b_def)
  show ?thesis
    unfolding X ieee_value_def Let_def fd
    using E by (simp add: s)
qed

lemma ieee_bits_Finite:
  assumes "round_to_format (t + 1) (1 - (2 ^ (w - 1) - 1)) (2 ^ (w - 1) - 1) m = Some r"
  shows "ieee_bits t w (Finite s m) =
     (if r < 2 powi (1 - (2 ^ (w - 1) - 1))
      then (if s then 2 ^ (t + w) else 0) + \<lfloor>r / 2 powi (1 - (2 ^ (w - 1) - 1) - int t)\<rfloor>
      else (if s then 2 ^ (t + w) else 0) + (floor_log2 r + (2 ^ (w - 1) - 1)) * 2 ^ t
           + (\<lfloor>r / 2 powi (floor_log2 r - int t)\<rfloor> - 2 ^ t))"
  by (simp only: ieee_bits_def Let_def number.case option.case assms)

lemma ieee_roundtrip:
  fixes t w :: nat and k j :: int
  defines "bias \<equiv> 2 ^ (w - 1) - 1"
  assumes w: "2 \<le> w"
    and m: "m = of_int k * 2 powi j" and k: "0 \<le> k" "k < 2 ^ (t + 1)"
    and j: "1 - bias - int t \<le> j" and top: "m < 2 powi (bias + 1)"
  shows "ieee_value t w (ieee_bits t w (Finite s m)) = Finite s m"
    and "0 \<le> ieee_bits t w (Finite s m)"
    and "ieee_bits t w (Finite s m) < 2 ^ (t + w + 1)"
proof -
  have bias2: "2 * bias = 2 ^ w - 2"
  proof -
    from w obtain w' where "w = Suc w'" by (cases w) auto
    then show ?thesis by (simp add: bias_def)
  qed
  have bias1: "1 \<le> bias"
  proof -
    have "(2::int) ^ 1 \<le> 2 ^ (w - 1)" using w by (intro power_increasing) auto
    then show ?thesis by (simp add: bias_def)
  qed
  have R: "round_to_format (t + 1) (1 - bias) bias m = Some m"
  proof (cases "k = 0")
    case True
    then show ?thesis by (simp add: m round_to_format_def)
  next
    case False
    with k have "0 < k" by simp
    from round_to_format_exact [OF m this k(2), of "1 - bias" bias] j top
    show ?thesis by simp
  qed
  note bits_eq = ieee_bits_Finite [OF R [unfolded bias_def], folded bias_def, of s]
  have mnn: "0 \<le> m" using k by (simp add: m)
  define S :: int where "S = (if s then 2 ^ (t + w) else 0)"
  have "ieee_value t w (ieee_bits t w (Finite s m)) = Finite s m
        \<and> 0 \<le> ieee_bits t w (Finite s m) \<and> ieee_bits t w (Finite s m) < 2 ^ (t + w + 1)"
  proof (cases "m < 2 powi (1 - bias)")
    case True
    define n where "n = nat (j - (1 - bias - int t))"
    define F where "F = k * 2 ^ n"
    have "m / 2 powi (1 - bias - int t) = of_int k * 2 powi (j - (1 - bias - int t))"
      by (simp add: m power_int_diff)
    also have "\<dots> = of_int F" using j by (simp add: F_def n_def power_int_nonneg_exp)
    finally have q: "m / 2 powi (1 - bias - int t) = of_int F" .
    then have mF: "m = of_int F * 2 powi (1 - bias - int t)" by (simp add: field_simps)
    have F0: "0 \<le> F" using k by (simp add: F_def)
    have "of_int F < (2::rat) powi (1 - bias) / 2 powi (1 - bias - int t)"
      unfolding q [symmetric] using True by (simp add: divide_strict_right_mono)
    also have "\<dots> = of_int (2 ^ t)" by (simp add: power_int_diff [symmetric])
    finally have F1: "F < 2 ^ t" by (simp only: of_int_less_iff)
    have bits: "ieee_bits t w (Finite s m) = S + 0 * 2 ^ t + F"
      unfolding bits_eq using True by (simp add: q S_def)
    have "0 < (2::int) ^ w - 1" using w by (simp add: one_less_power)
    from ieee_value_fields [OF F0 F1 order_refl this, of s, folded bias_def]
    have v: "ieee_value t w (S + 0 * 2 ^ t + F) = Finite s m"
      by (simp add: S_def mF)
    have S: "0 \<le> S" "S \<le> 2 ^ (t + w)" by (simp_all add: S_def)
    have "(2::int) ^ t \<le> 2 ^ (t + w)" by (intro power_increasing) auto
    with F1 have "F < 2 ^ (t + w)" by linarith
    with S F0 have "0 \<le> S + F" "S + F < 2 ^ (t + w + 1)" by simp_all
    with v show ?thesis by (simp add: bits)
  next
    case False
    then have lo: "2 powi (1 - bias) \<le> m" by simp
    then have mpos: "0 < m" by (rule less_le_trans [rotated]) simp
    define e where "e = floor_log2 m"
    note B = floor_log2_bounds [OF mpos, folded e_def]
    have "(2::rat) powi (1 - bias) < 2 powi (e + 1)" using lo B(2) by (rule le_less_trans)
    then have "1 - bias < e + 1" by (simp only: two_powi_less_iff)
    then have e1: "1 - bias \<le> e" by simp
    have "(2::rat) powi e < 2 powi (bias + 1)" using B(1) top by (rule le_less_trans)
    then have "e < bias + 1" by (simp only: two_powi_less_iff)
    then have e2: "e \<le> bias" by simp
    have "m < of_int (2 ^ (t + 1)) * 2 powi j"
      unfolding m using k(2)
      by (intro mult_strict_right_mono) (simp_all only: of_int_less_iff zero_less_power_int zero_less_numeral)
    also have "\<dots> = 2 powi (int t + 1 + j)" by (simp add: power_int_add)
    finally have "(2::rat) powi e < 2 powi (int t + 1 + j)" using B(1) by simp
    then have "e < int t + 1 + j" by (simp only: two_powi_less_iff)
    then have e3: "e \<le> int t + j" by simp
    define n where "n = nat (j - (e - int t))"
    define G where "G = k * 2 ^ n"
    have "m / 2 powi (e - int t) = of_int k * 2 powi (j - (e - int t))"
      by (simp add: m power_int_diff)
    also have "\<dots> = of_int G" using e3 by (simp add: G_def n_def power_int_nonneg_exp)
    finally have q: "m / 2 powi (e - int t) = of_int G" .
    then have mG: "m = of_int G * 2 powi (e - int t)" by (simp add: field_simps)
    have "(2::rat) powi e / 2 powi (e - int t) \<le> of_int G"
      unfolding q [symmetric] using B(1) by (simp add: divide_right_mono)
    also have "(2::rat) powi e / 2 powi (e - int t) = of_int (2 ^ t)"
      by (simp add: power_int_diff [symmetric])
    finally have G0: "2 ^ t \<le> G" by (simp only: of_int_le_iff)
    have "of_int G < (2::rat) powi (e + 1) / 2 powi (e - int t)"
      unfolding q [symmetric] using B(2) by (simp add: divide_strict_right_mono)
    also have "\<dots> = 2 powi (e + 1 - (e - int t))"
      by (rule power_int_diff [symmetric]) simp
    also have "e + 1 - (e - int t) = int (t + 1)" by simp
    also have "(2::rat) powi int (t + 1) = of_int (2 ^ (t + 1))"
      by (simp only: power_int_of_nat of_int_power of_int_numeral)
    finally have G1: "G < 2 ^ (t + 1)" by (simp only: of_int_less_iff)
    define F where "F = G - 2 ^ t"
    have F: "0 \<le> F" "F < 2 ^ t" using G0 G1 by (simp_all add: F_def)
    define E where "E = e + bias"
    have E: "0 \<le> E" "E < 2 ^ w - 1" "E \<noteq> 0" using e1 e2 bias2 by (simp_all add: E_def)
    have bits: "ieee_bits t w (Finite s m) = S + E * 2 ^ t + F"
      unfolding bits_eq e_def [symmetric] using False by (simp add: q S_def E_def F_def)
    from ieee_value_fields [OF F E(1,2), of s, folded bias_def]
    have v: "ieee_value t w (S + E * 2 ^ t + F) = Finite s m"
      using E(3) by (simp add: S_def mG F_def E_def)
    define b :: int where "b = (if s then 1 else 0)"
    have b: "b = 0 \<or> b = 1" by (simp add: b_def)
    have Sb: "S = b * 2 ^ (t + w)" by (simp add: b_def S_def)
    have "E < 2 ^ w" using E by simp
    from fields_decode(4,5) [OF F E(1) this b]
    have "0 \<le> S + E * 2 ^ t + F" "S + E * 2 ^ t + F < 2 ^ (t + w + 1)"
      by (simp_all only: Sb)
    with v show ?thesis by (simp add: bits)
  qed
  then show "ieee_value t w (ieee_bits t w (Finite s m)) = Finite s m"
    and "0 \<le> ieee_bits t w (Finite s m)"
    and "ieee_bits t w (Finite s m) < 2 ^ (t + w + 1)" by simp_all
qed

section \<open>Representability\<close>

lemma literal_2_pow_minus_14:
  "binary64 False (6103515625 / 100000000000000) = Finite False (2 powi (- 14))"
proof -
  have "(6103515625 / 100000000000000 :: rat) = 2 powi (- 14)" by simp
  moreover have "binary64 False (2 powi (- 14)) = Finite False (2 powi (- 14))"
    by (rule binary64_small [where k = 1 and j = "- 14"]) simp_all
  ultimately show ?thesis by (simp only:)
qed

lemma number_of_int_65504: "number_of_int 65504 = Finite False 65504"
  unfolding number_of_int_def
  by (rule binary64_small [where k = 2047 and j = 5, THEN trans]) simp_all

lemma length_encodeFloat16Bytes [simp]: "length (encodeFloat16Bytes v) = 2"
  by (simp add: encodeFloat16Bytes_def Let_def)

lemma canBeFloat16_Finite:
  "canBeFloat16 (Finite s m) =
     Inr (if m = 0 then True
          else if with_sign False m < with_sign False (2 powi (- 14)) \<or> with_sign False 65504 < with_sign False m then False
          else ieee_binary16 (uint (encodeFloat16Bytes (Finite s m) ! 0) * 256
                              + uint (encodeFloat16Bytes (Finite s m) ! 1)) = Finite s m)"
  unfolding canBeFloat16_def literal_2_pow_minus_14 number_of_int_65504
  by (simp add: Number_isNaN_def Number_isFinite_def Object_is_def
      isNegativeZero_def Math_abs_def js_gt_def
      float16ToFloat64_eq Let_def del: power_int_numeral_neg_numeral)


lemma ieee_binary16_form:
  assumes "ieee_binary16 p = Finite s m"
  shows "\<exists>k j. m = of_int k * 2 powi j \<and> 0 \<le> k \<and> k < 2 ^ 11 \<and> - 24 \<le> j \<and> j \<le> 5"
proof -
  define e where "e = p div 2 ^ 10 mod 2 ^ 5"
  define f where "f = p mod 2 ^ 10"
  have f: "0 \<le> f" "f < 2 ^ 10" by (simp_all add: f_def)
  have e: "0 \<le> e" "e < 32" by (simp_all add: e_def)
  consider (zero) "m = 0" | (sub) "m = 2 powi (- 14) * (of_int f / 1024)"
    | (nor) "e \<noteq> 0" "e \<noteq> 31" "m = 2 powi (e - 15) * (1 + of_int f / 1024)"
    using assms unfolding ieee_binary16_def Let_def e_def [symmetric] f_def [symmetric]
    by (auto split: if_splits)
  then show ?thesis
  proof cases
    case zero
    then show ?thesis by (intro exI [of _ 0] exI [of _ 0]) simp
  next
    case sub
    have "m = of_int f * 2 powi (- 24)" by (simp add: sub)
    with f show ?thesis by (intro exI [of _ f] exI [of _ "- 24"]) simp
  next
    case nor
    have "(1 + of_int f / 1024 :: rat) = of_int (1024 + f) * 2 powi (- 10)" by simp
    then have "m = of_int (1024 + f) * (2 powi (e - 15) * 2 powi (- 10))"
      by (simp only: nor(3)) (simp only: mult_ac)
    also have "(2::rat) powi (e - 15) * 2 powi (- 10) = 2 powi (e - 15 + (- 10))"
      by (rule power_int_add [symmetric]) simp
    also have "e - 15 + (- 10) = e - 25" by simp
    finally have "m = of_int (1024 + f) * 2 powi (e - 25)" .
    with f e nor(1,2) show ?thesis
      by (intro exI [of _ "1024 + f"] exI [of _ "e - 25"]) simp
  qed
qed

lemma binary32_roundtrip:
  assumes m: "m = of_int k * 2 powi j" and k: "0 \<le> k" "k < 2 ^ 24"
    and j: "- 149 \<le> j" and top: "m < 2 powi 128"
  shows "getFloat32 (setFloat32 (Finite s m)) = Finite s m"
proof -
  have k': "k < 2 ^ (23 + 1)" using k by simp
  have j': "1 - (2 ^ (8 - 1) - 1) - int 23 \<le> j" using j by simp
  have top': "m < 2 powi ((2 ^ (8 - 1) - 1) + 1)" using top by simp
  note rt = ieee_roundtrip [where t = 23 and w = 8, OF _ m k(1) k' j' top', of s]
  have "be_int (be_bytes 4 (ieee_bits 23 8 (Finite s m))) = ieee_bits 23 8 (Finite s m)"
    using rt(2,3) by (intro be_int_be_bytes) simp_all
  then show ?thesis using rt(1) by (simp add: getFloat32_def setFloat32_def)
qed

lemma ieee_value_32_form:
  assumes "ieee_value 23 8 bits = Finite s m"
  shows "\<exists>k j. m = of_int k * 2 powi j \<and> 0 \<le> k \<and> k < 2 ^ 24 \<and> - 149 \<le> j \<and> m < 2 powi 128"
proof -
  define e where "e = bits div 2 ^ 23 mod 2 ^ 8"
  define f where "f = bits mod 2 ^ 23"
  have f: "0 \<le> f" "f < 2 ^ 23" by (simp_all add: f_def)
  have e: "0 \<le> e" "e < 256" by (simp_all add: e_def)
  consider (sub) "m = of_int f * 2 powi (- 149)"
    | (nor) "e \<noteq> 0" "e \<noteq> 255" "m = of_int (2 ^ 23 + f) * 2 powi (e - 150)"
    using assms unfolding ieee_value_def Let_def e_def [symmetric] f_def [symmetric]
    by (auto split: if_splits simp del: power_int_numeral_neg_numeral)
  then show ?thesis
  proof cases
    case sub
    have "of_int f * 2 powi (- 149) < (of_int (2 ^ 23) :: rat) * 2 powi (- 149)"
      using f(2) by (intro mult_strict_right_mono) (simp_all only: of_int_less_iff zero_less_power_int zero_less_numeral)
    also have "\<dots> \<le> 2 powi 128" by (simp add: power_int_minus_divide)
    finally have "m < 2 powi 128" by (simp only: sub)
    with f sub show ?thesis by (intro exI [of _ f] exI [of _ "- 149"]) simp
  next
    case nor
    have e254: "e - 150 \<le> 104" using e nor by simp
    have "of_int (2 ^ 23 + f) * 2 powi (e - 150) < (of_int (2 ^ 24) :: rat) * 2 powi (e - 150)"
      using f(2) by (intro mult_strict_right_mono) (simp_all only: of_int_less_iff zero_less_power_int zero_less_numeral, simp)
    also have "\<dots> \<le> of_int (2 ^ 24) * 2 powi 104"
      using e254 by (intro mult_left_mono) (simp_all only: two_powi_le_iff, simp)
    also have "\<dots> = 2 powi 128" by simp
    finally have "m < 2 powi 128" by (simp only: nor(3))
    with f e nor show ?thesis by (intro exI [of _ "2 ^ 23 + f"] exI [of _ "e - 150"]) simp
  qed
qed

lemma representable_binary32_iff:
  "representable_binary32 (Finite s m) \<longleftrightarrow>
     (\<exists>bits. 0 \<le> bits \<and> bits < 2 ^ 32 \<and> ieee_value 23 8 bits = Finite s m)"
proof
  assume "representable_binary32 (Finite s m)"
  then have *: "ieee_value 23 8 (be_int (be_bytes 4 (ieee_bits 23 8 (Finite s m)))) = Finite s m"
    by (simp add: representable_binary32_def Object_is_def getFloat32_def setFloat32_def)
  have "0 \<le> be_int (be_bytes 4 (ieee_bits 23 8 (Finite s m)))"
    and "be_int (be_bytes 4 (ieee_bits 23 8 (Finite s m))) < 2 ^ 32"
    by (simp_all add: be_int_be_bytes_mod)
  with * show "\<exists>bits. 0 \<le> bits \<and> bits < 2 ^ 32 \<and> ieee_value 23 8 bits = Finite s m"
    by blast
next
  assume "\<exists>bits. 0 \<le> bits \<and> bits < 2 ^ 32 \<and> ieee_value 23 8 bits = Finite s m"
  then obtain bits where "ieee_value 23 8 bits = Finite s m" by blast
  from ieee_value_32_form [OF this] obtain k j
    where "m = of_int k * 2 powi j" "0 \<le> k" "k < 2 ^ 24" "- 149 \<le> j" "m < 2 powi 128"
    by blast
  from binary32_roundtrip [OF this] show "representable_binary32 (Finite s m)"
    by (simp add: representable_binary32_def Object_is_def)
qed

lemma binary16_representable_binary32:
  assumes "is_binary16_value (Finite s m)"
  shows "representable_binary32 (Finite s m)"
proof -
  from assms obtain p where "ieee_binary16 p = Finite s m" by (auto simp: is_binary16_value_def)
  from ieee_binary16_form [OF this] obtain k j
    where kj: "m = of_int k * 2 powi j" "0 \<le> k" "k < 2 ^ 11" "- 24 \<le> j" "j \<le> 5"
    by blast
  have "(2::rat) powi j \<le> 2 powi 5" using kj(5) by (simp only: two_powi_le_iff)
  then have "of_int k * 2 powi j \<le> (of_int k :: rat) * 2 powi 5"
    using kj(2) by (intro mult_left_mono) simp_all
  also have "\<dots> < of_int (2 ^ 11) * 2 powi 5"
    using kj(3) by (intro mult_strict_right_mono) (simp_all only: of_int_less_iff zero_less_power_int zero_less_numeral)
  also have "\<dots> \<le> 2 powi 128" by simp
  finally have top: "m < 2 powi 128" by (simp only: kj(1))
  have "k < 2 ^ 24" "- 149 \<le> j" using kj by simp_all
  from binary32_roundtrip [OF kj(1,2) this top]
  show ?thesis by (simp add: representable_binary32_def Object_is_def)
qed

lemma canBeFloat16_binary16:
  assumes "canBeFloat16 (Finite s m) = Inr True" and "0 \<le> m"
  shows "is_binary16_value (Finite s m)"
proof (cases "m = 0")
  case True
  have "ieee_binary16 0 = Finite False 0" "ieee_binary16 32768 = Finite True 0"
    by (simp_all add: ieee_binary16_def)
  then show ?thesis
    unfolding is_binary16_value_def True
    by (cases s) (force intro: exI [of _ 32768], force intro: exI [of _ 0])
next
  case False
  define b0 where "b0 = encodeFloat16Bytes (Finite s m) ! 0"
  define b1 where "b1 = encodeFloat16Bytes (Finite s m) ! 1"
  have "0 \<le> uint b0" "uint b0 < 256" "0 \<le> uint b1" "uint b1 < 256"
    using uint_lt2p [of b0] uint_lt2p [of b1] by simp_all
  then have "0 \<le> uint b0 * 256 + uint b1" "uint b0 * 256 + uint b1 < 2 ^ 16" by simp_all
  moreover have "ieee_binary16 (uint b0 * 256 + uint b1) = Finite s m"
    using assms(1) False unfolding canBeFloat16_Finite b0_def b1_def
    by (simp split: if_splits)
  ultimately show ?thesis unfolding is_binary16_value_def by blast
qed

section \<open>Parsing floats\<close>

lemma parseFloatFromBuffer_f9:
  assumes "offset + 2 < length buffer" and "buffer ! offset = 0xf9"
  shows "parseFloatFromBuffer buffer offset options =
     (Inr \<lparr>value = Number (ieee_binary16 (uint (buffer ! (offset + 1)) * 256
                                            + uint (buffer ! (offset + 2)))),
           bytesRead = 3\<rparr>,
      [offset, offset + 1, offset + 2])"
  using assms
  by (simp add: parseFloatFromBuffer_def readByte_in_range float16ToFloat64_eq ok_def
      add.commute [of 2])

lemma DataView_window:
  "start + n \<le> length buffer \<Longrightarrow>
   bind_eff (DataView_new buffer start n) (\<lambda>dataView. DataView_read dataView 0 n)
     = (Inr (take n (drop start buffer)), [start ..< start + n])"
  by (simp add: DataView_new_def DataView_read_def)

lemma parseFloatFromBuffer_fa:
  assumes "offset + 4 < length buffer" and "buffer ! offset = 0xfa"
  shows "fst (parseFloatFromBuffer buffer offset options) =
     (let v = getFloat32 (take 4 (drop (offset + 1) buffer))
      in if validateCanonical_set options then
           (if Number_isNaN v then Inl NonCanonicalNaN
            else case canBeFloat16 v of
                   Inl e \<Rightarrow> Inl e
                 | Inr c16 \<Rightarrow>
                     if c16 then Inl (NonMinimalFloat FitsFloat16)
                     else Inr \<lparr>value = Number v, bytesRead = 5\<rparr>)
         else Inr \<lparr>value = Number v, bytesRead = 5\<rparr>)"
  using assms
  by (simp add: parseFloatFromBuffer_def readByte_in_range DataView_new_def
      DataView_getFloat32_def DataView_read_def Let_def split: sum.splits)

lemma parseFloatFromBuffer_fb:
  assumes "offset + 8 < length buffer" and "buffer ! offset = 0xfb"
  shows "fst (parseFloatFromBuffer buffer offset options) =
     (let v = getFloat64 (take 8 (drop (offset + 1) buffer))
      in if validateCanonical_set options then
           (if Number_isNaN v then Inl NonCanonicalNaN
            else case canBeFloat16 v of
                   Inl e \<Rightarrow> Inl e
                 | Inr c16 \<Rightarrow>
                     if c16 \<or> canBeFloat32 v then Inl (NonMinimalFloat FitsFloat16OrFloat32)
                     else Inr \<lparr>value = Number v, bytesRead = 9\<rparr>)
         else Inr \<lparr>value = Number v, bytesRead = 9\<rparr>)"
  using assms
  by (simp add: parseFloatFromBuffer_def readByte_in_range DataView_new_def
      DataView_getFloat64_def DataView_read_def Let_def split: sum.splits)

lemma ieee_value_nonneg: "ieee_value t w bits = Finite s m \<Longrightarrow> 0 \<le> m"
  by (auto simp: ieee_value_def Let_def split: if_splits)

lemma canBeFloat32_eq: "canBeFloat32 (Finite s m) = representable_binary32 (Finite s m)"
proof (cases "m = 0")
  case True
  have "getFloat32 (setFloat32 (Finite s 0)) = Finite s 0"
    by (rule binary32_roundtrip [where k = 0 and j = 0]) simp_all
  then show ?thesis
    by (cases s) (simp_all add: True canBeFloat32_def representable_binary32_def Object_is_def
        Number_isNaN_def Number_isFinite_def isNegativeZero_def)
next
  case False
  then show ?thesis
    by (simp add: canBeFloat32_def representable_binary32_def Object_is_def
        Number_isNaN_def Number_isFinite_def isNegativeZero_def)
qed

lemma canBeFloat16_total: "\<exists>c. canBeFloat16 v = Inr c"
proof (cases v)
  case (Finite s m)
  then show ?thesis by (simp add: canBeFloat16_Finite)
qed (auto simp: canBeFloat16_def Number_isNaN_def Number_isFinite_def)

lemma parseFloatFromBuffer_no_RangeError:
  "fst (parseFloatFromBuffer buffer offset options) \<noteq> Inl RangeError"
proof (cases "offset < length buffer")
  case False
  then show ?thesis by (simp add: parseFloatFromBuffer_def readByte_def)
next
  case True
  obtain c32 where c32: "canBeFloat16 (getFloat32 (take 4 (drop (Suc offset) buffer))) = Inr c32"
    using canBeFloat16_total by blast
  obtain c64 where c64: "canBeFloat16 (getFloat64 (take 8 (drop (Suc offset) buffer))) = Inr c64"
    using canBeFloat16_total by blast
  show ?thesis
    using True
    by (auto simp: parseFloatFromBuffer_def readByte_in_range float16ToFloat64_eq DataView_new_def
        DataView_getFloat32_def DataView_getFloat64_def DataView_read_def c32 c64
        split: prod.splits)
qed

lemma parseSimpleFromBuffer_eof:
  "offset < length buffer \<Longrightarrow> length buffer \<le> offset + 1 \<Longrightarrow> buffer ! offset = 0xf8 \<Longrightarrow>
   parseSimpleFromBuffer buffer offset = (Inl (UnexpectedEof ReadingSimple), [offset])"
  by (simp add: parseSimpleFromBuffer_def readByte_in_range throw_def)

lemma parseFloatFromBuffer_eof:
  assumes "offset < length buffer"
  shows "length buffer \<le> offset + 2 \<Longrightarrow> buffer ! offset = 0xf9 \<Longrightarrow>
      parseFloatFromBuffer buffer offset options = (Inl (UnexpectedEof ReadingFloat16), [offset])"
    and "length buffer \<le> offset + 4 \<Longrightarrow> buffer ! offset = 0xfa \<Longrightarrow>
      parseFloatFromBuffer buffer offset options = (Inl (UnexpectedEof ReadingFloat32), [offset])"
    and "length buffer \<le> offset + 8 \<Longrightarrow> buffer ! offset = 0xfb \<Longrightarrow>
      parseFloatFromBuffer buffer offset options = (Inl (UnexpectedEof ReadingFloat64), [offset])"
  using assms by (simp_all add: parseFloatFromBuffer_def readByte_in_range throw_def)

lemma float16ToFloat64_shift:
  "offset + 1 < length buffer \<Longrightarrow>
   fst (float16ToFloat64 (pre @ buffer) (length pre + offset)) = fst (float16ToFloat64 buffer offset)"
  by (simp add: float16ToFloat64_eq nth_append add.assoc)

section \<open>Binary16 decoding\<close>

text \<open>
  Claim C4. For every 3-byte input \<open>f9 b1 b2\<close> the float parser returns exactly the
  IEEE-754 binary16 interpretation of the big-endian pattern \<open>(b1, b2)\<close> and reports
  \<open>bytesRead = 3\<close>; it reads the three bytes in order. Every rounding of the
  floating-point arithmetic of \<open>float16ToFloat64\<close> is exact. The same holds through
  \<open>parseFloat\<close> for every hex string that \<open>hexToBytes\<close> turns into these three bytes.
\<close>

theorem float16_ieee_value:
  "parseFloatFromBuffer [0xf9, b1, b2] 0 options =
     (Inr \<lparr>value = Number (ieee_binary16 (uint b1 * 256 + uint b2)), bytesRead = 3\<rparr>,
      [0, 1, 2])
   \<and> (hexToBytes hexString = Inr [0xf9, b1, b2] \<longrightarrow>
        fst (parseFloat hexString options) =
          Inr \<lparr>value = Number (ieee_binary16 (uint b1 * 256 + uint b2)), bytesRead = 3\<rparr>)"
  using parseFloatFromBuffer_f9 [of 0 "[0xf9, b1, b2]" options]
  by (simp add: parseFloat_def)

text \<open>The hex string \<open>f93e00\<close> decodes to 1.5.\<close>

theorem float16_ieee_value_witness:
  "hexToBytes ''f93e00'' = Inr [0xf9, 0x3e, 0x00]
   \<and> fst (parseFloat ''f93e00'' None) = Inr \<lparr>value = Number (Finite False (3 / 2)), bytesRead = 3\<rparr>"
proof -
  have h: "hexToBytes ''f93e00'' = Inr [0xf9, 0x3e, 0x00]" by code_simp
  have v: "ieee_binary16 (uint (0x3e :: byte) * 256 + uint (0x00 :: byte)) = Finite False (3 / 2)"
    by code_simp
  from float16_ieee_value [of "0x3e" "0x00" None "''f93e00''"] h v show ?thesis by simp
qed

text \<open>
  Claim C6. Decoding the hex \<open>f98000\<close> yields the float \<open>-0\<close>, for which
  \<open>isNegativeZero\<close> holds, and decoding \<open>f90000\<close> yields \<open>+0\<close>, for which it does
  not. The claim is settled on the entry point \<open>parse\<close> of the float parser.
\<close>

theorem negative_zero_distinct:
  "fst (parse ''f98000'' options) = Inr \<lparr>value = Number (Finite True 0), bytesRead = 3\<rparr>
   \<and> isNegativeZero (Finite True 0)
   \<and> fst (parse ''f90000'' options) = Inr \<lparr>value = Number (Finite False 0), bytesRead = 3\<rparr>
   \<and> \<not> isNegativeZero (Finite False 0)"
  by code_simp

section \<open>Simple values\<close>

text \<open>
  Claim C7. For major type 7 with additional info 24 (header byte \<open>f8\<close>) followed by
  at least one byte, the simple-value parser reads the header and exactly one following
  byte; a byte below 32 fails with \<open>OverlongSimple\<close>, and a byte of 32 or more is
  returned as a simple value with \<open>bytesRead = 2\<close>.
\<close>

theorem simple_one_byte:
  assumes "offset + 1 < length buffer" and "buffer ! offset = 0xf8"
  shows "parseSimpleFromBuffer buffer offset =
           (if uint (buffer ! (offset + 1)) < 32
            then Inl (OverlongSimple (uint (buffer ! (offset + 1))))
            else Inr \<lparr>value = SimpleValue (uint (buffer ! (offset + 1))), bytesRead = 2\<rparr>,
            [offset, offset + 1])"
  using assms by (simp add: parseSimpleFromBuffer_def readByte_in_range throw_def ok_def)

theorem simple_one_byte_witness:
  "parseSimpleFromBuffer [0xf8, 0x1f] 0 = (Inl (OverlongSimple 31), [0, 1])
   \<and> parseSimpleFromBuffer [0xf8, 0x20] 0
       = (Inr \<lparr>value = SimpleValue 32, bytesRead = 2\<rparr>, [0, 1])"
  using simple_one_byte [of 0 "[0xf8, 0x1f]"] simple_one_byte [of 0 "[0xf8, 0x20]"]
  by simp

section \<open>Bounds of the reads\<close>

text \<open>
  Claim C8. Whenever the payload declared by the header (1 byte for additional info 24,
  2, 4 and 8 bytes for 25, 26 and 27) extends past the end of the buffer, parsing fails
  with \<open>UnexpectedEof\<close> after reading the header only. On every input, every index
  read lies within the buffer, and the \<open>DataView\<close> constructor never raises.
\<close>

theorem reads_bounds_checked:
  "(offset < length buffer \<and> length buffer \<le> offset + 1 \<and> buffer ! offset = 0xf8 \<longrightarrow>
      parseSimpleFromBuffer buffer offset = (Inl (UnexpectedEof ReadingSimple), [offset]))
   \<and> (offset < length buffer \<and> length buffer \<le> offset + 2 \<and> buffer ! offset = 0xf9 \<longrightarrow>
      parseFloatFromBuffer buffer offset options = (Inl (UnexpectedEof ReadingFloat16), [offset]))
   \<and> (offset < length buffer \<and> length buffer \<le> offset + 4 \<and> buffer ! offset = 0xfa \<longrightarrow>
      parseFloatFromBuffer buffer offset options = (Inl (UnexpectedEof ReadingFloat32), [offset]))
   \<and> (offset < length buffer \<and> length buffer \<le> offset + 8 \<and> buffer ! offset = 0xfb \<longrightarrow>
      parseFloatFromBuffer buffer offset options = (Inl (UnexpectedEof ReadingFloat64), [offset]))
   \<and> (\<forall>i \<in> set (snd (parseSimpleFromBuffer buffer offset)). i < length buffer)
   \<and> (\<forall>i \<in> set (snd (parseFloatFromBuffer buffer offset options)). i < length buffer)
   \<and> (\<forall>i \<in> set (snd (parseFromBuffer buffer offset options)). i < length buffer)
   \<and> fst (parseFloatFromBuffer buffer offset options) \<noteq> Inl RangeError"
  using parseSimpleFromBuffer_reads [of buffer offset]
    parseFloatFromBuffer_reads [of buffer offset options]
    parseFromBuffer_reads [of buffer offset options]
    parseFloatFromBuffer_no_RangeError [of buffer offset options]
  by (auto simp: parseSimpleFromBuffer_eof parseFloatFromBuffer_eof)

theorem reads_bounds_checked_witness:
  "parseSimpleFromBuffer [0xf8] 0 = (Inl (UnexpectedEof ReadingSimple), [0])
   \<and> parseFloatFromBuffer [0xf9, 0x3e] 0 None = (Inl (UnexpectedEof ReadingFloat16), [0])
   \<and> parseFloatFromBuffer [0x00, 0xfa, 0x3f, 0xc0, 0x00] 1 None = (Inl (UnexpectedEof ReadingFloat32), [1])
   \<and> parseFloatFromBuffer [0xfb, 0, 0, 0, 0, 0, 0, 0] 0 None = (Inl (UnexpectedEof ReadingFloat64), [0])
   \<and> snd (parseFloatFromBuffer [0xfa, 0x3f, 0xc0, 0x00, 0x00] 0 None) = [0, 1, 2, 3, 4]
   \<and> list_all (\<lambda>i. i < length [0xfa, 0x3f, 0xc0, 0x00, 0x00 :: byte])
         (snd (parseFloatFromBuffer [0xfa, 0x3f, 0xc0, 0x00, 0x00] 0 None))"
proof -
  have r: "snd (parseFloatFromBuffer [0xfa, 0x3f, 0xc0, 0x00, 0x00] 0 None) = [0, 1, 2, 3, 4]"
    by code_simp
  from reads_bounds_checked [of 0 "[0xf8]" None]
    reads_bounds_checked [of 0 "[0xf9, 0x3e]" None]
    reads_bounds_checked [of 1 "[0x00, 0xfa, 0x3f, 0xc0, 0x00]" None]
    reads_bounds_checked [of 0 "[0xfb, 0, 0, 0, 0, 0, 0, 0]" None]
    reads_bounds_checked [of 0 "[0xfa, 0x3f, 0xc0, 0x00, 0x00]" None] r
  show ?thesis by (simp add: list_all_iff)
qed

section \<open>What an error carries\<close>

text \<open>
  Claim C9 says that every error carries the byte offset at which it was detected. The
  errors raised by the float and simple-value parser carry their message only: the same
  error value results from a non-canonical NaN at offset 0 and at offset 1.
\<close>

theorem error_offset_counterexample:
  "fst (parseFloatFromBuffer [0xfa, 0x7f, 0xc0, 0x00, 0x00] 0
          (Some \<lparr>validateCanonical = Some True, strict = None\<rparr>)) = Inl NonCanonicalNaN
   \<and> fst (parseFloatFromBuffer [0x00, 0xfa, 0x7f, 0xc0, 0x00, 0x00] 1
          (Some \<lparr>validateCanonical = Some True, strict = None\<rparr>)) = Inl NonCanonicalNaN"
proof -
  have g: "getFloat32 [0x7f, 0xc0, 0x00, 0x00] = NaN" by code_simp
  have o: "validateCanonical_set (Some \<lparr>validateCanonical = Some True, strict = None\<rparr>)"
    by (simp add: validateCanonical_set_def)
  show ?thesis
    by (simp add: parseFloatFromBuffer_fa g o Number_isNaN_def)
qed

text \<open>
  Claim C9, as amended. An error raised by the float and simple-value parser for an item
  whose header lies within the buffer does not depend on where in the buffer the item
  lies: parsing the same bytes behind any prefix, at the offset shifted accordingly, gives
  the same result or the same error. The errors carry neither an offset nor a path.
\<close>

theorem errors_carry_no_offset:
  assumes "offset < length buffer"
  shows "fst (parseFloatFromBuffer (pre @ buffer) (length pre + offset) options)
           = fst (parseFloatFromBuffer buffer offset options)
       \<and> fst (parseSimpleFromBuffer (pre @ buffer) (length pre + offset))
           = fst (parseSimpleFromBuffer buffer offset)"
proof
  show "fst (parseFloatFromBuffer (pre @ buffer) (length pre + offset) options)
           = fst (parseFloatFromBuffer buffer offset options)"
    using assms
    by (auto simp: parseFloatFromBuffer_def readByte_in_range nth_append float16ToFloat64_eq
        DataView_new_def DataView_getFloat32_def DataView_getFloat64_def DataView_read_def
        add.assoc split: prod.splits sum.splits)
  show "fst (parseSimpleFromBuffer (pre @ buffer) (length pre + offset))
           = fst (parseSimpleFromBuffer buffer offset)"
    using assms
    by (auto simp: parseSimpleFromBuffer_def readByte_in_range nth_append add.assoc
        split: prod.splits)
qed

theorem errors_carry_no_offset_witness:
  "fst (parseSimpleFromBuffer ([0x00, 0x00] @ [0xf8, 0x1f]) (length [0x00 :: byte, 0x00] + 0))
     = Inl (OverlongSimple 31)
   \<and> fst (parseSimpleFromBuffer [0xf8, 0x1f] 0) = Inl (OverlongSimple 31)"
proof -
  have "fst (parseSimpleFromBuffer [0xf8, 0x1f] 0) = Inl (OverlongSimple 31)"
    by (simp add: parseSimpleFromBuffer_def readByte_in_range)
  with errors_carry_no_offset [of 0 "[0xf8, 0x1f]" "[0x00, 0x00]" None]
  show ?thesis by simp
qed

section \<open>Canonical floats\<close>

text \<open>
  Claim C2 says that under \<open>validateCanonical\<close> every NaN encoding other than
  \<open>f97e00\<close> fails with \<open>NonCanonicalNaN\<close>. The binary16 case of the parser makes no
  canonical check: \<open>f97e01\<close> parses to NaN.
\<close>

theorem nan_binary16_payload_counterexample:
  "fst (parseFloat ''f97e01'' (Some \<lparr>validateCanonical = Some True, strict = None\<rparr>))
     = Inr \<lparr>value = Number NaN, bytesRead = 3\<rparr>"
  by code_simp

text \<open>
  Claim C2, as amended. When \<open>validateCanonical\<close> is set, every binary32 (additional
  info 26) and every binary64 (additional info 27) encoding that decodes to NaN fails with
  \<open>NonCanonicalNaN\<close>, and every binary16 (additional info 25) encoding of a NaN,
  whatever its payload, parses successfully to NaN.
\<close>

theorem nan_canonical_check:
  assumes "validateCanonical_set options"
  shows "(offset + 4 < length buffer \<and> buffer ! offset = 0xfa
            \<and> getFloat32 (take 4 (drop (offset + 1) buffer)) = NaN
          \<longrightarrow> fst (parseFloatFromBuffer buffer offset options) = Inl NonCanonicalNaN)
       \<and> (offset + 8 < length buffer \<and> buffer ! offset = 0xfb
            \<and> getFloat64 (take 8 (drop (offset + 1) buffer)) = NaN
          \<longrightarrow> fst (parseFloatFromBuffer buffer offset options) = Inl NonCanonicalNaN)
       \<and> (offset + 2 < length buffer \<and> buffer ! offset = 0xf9
            \<and> ieee_binary16 (uint (buffer ! (offset + 1)) * 256 + uint (buffer ! (offset + 2))) = NaN
          \<longrightarrow> fst (parseFloatFromBuffer buffer offset options)
                = Inr \<lparr>value = Number NaN, bytesRead = 3\<rparr>)"
  using assms
  by (simp add: parseFloatFromBuffer_f9 parseFloatFromBuffer_fa parseFloatFromBuffer_fb
      Number_isNaN_def)

theorem nan_canonical_check_witness:
  "fst (parseFloatFromBuffer [0xfa, 0x7f, 0xc0, 0x00, 0x00] 0
          (Some \<lparr>validateCanonical = Some True, strict = None\<rparr>)) = Inl NonCanonicalNaN
   \<and> fst (parseFloatFromBuffer [0xfb, 0x7f, 0xf8, 0x00, 0x00, 0x00, 0x00, 0x00, 0x00] 0
          (Some \<lparr>validateCanonical = Some True, strict = None\<rparr>)) = Inl NonCanonicalNaN
   \<and> fst (parseFloatFromBuffer [0xf9, 0xfe, 0x01] 0
          (Some \<lparr>validateCanonical = Some True, strict = None\<rparr>))
       = Inr \<lparr>value = Number NaN, bytesRead = 3\<rparr>"
proof -
  let ?opts = "Some \<lparr>validateCanonical = Some True, strict = None\<rparr>"
  have o: "validateCanonical_set ?opts" by (simp add: validateCanonical_set_def)
  have a: "getFloat32 [0x7f, 0xc0, 0x00, 0x00] = NaN" by code_simp
  have b: "getFloat64 [0x7f, 0xf8, 0x00, 0x00, 0x00, 0x00, 0x00, 0x00] = NaN" by code_simp
  have c: "ieee_binary16 65025 = NaN" by code_simp
  from nan_canonical_check [OF o, of 0 "[0xfa, 0x7f, 0xc0, 0x00, 0x00]"]
    nan_canonical_check [OF o, of 0 "[0xfb, 0x7f, 0xf8, 0x00, 0x00, 0x00, 0x00, 0x00, 0x00]"]
    nan_canonical_check [OF o, of 0 "[0xf9, 0xfe, 0x01]"] a b c
  show ?thesis by simp
qed

text \<open>
  Claim C3 says that under \<open>validateCanonical\<close> every finite binary32 value that is
  representable in binary16, the binary16 subnormals included, fails with
  \<open>NonMinimalFloat\<close>. The value \<open>2 powi (- 24)\<close> is the binary16 subnormal \<open>0001\<close>;
  encoded in binary32 as \<open>fa33800000\<close> it parses successfully, because \<open>canBeFloat16\<close>
  answers false for every magnitude below \<open>2 powi (- 14)\<close>.
\<close>

theorem float32_subnormal_counterexample:
  "getFloat32 [0x33, 0x80, 0x00, 0x00] = Finite False (1 / 16777216)
   \<and> ieee_binary16 1 = Finite False (1 / 16777216)
   \<and> fst (parseFloat ''fa33800000'' (Some \<lparr>validateCanonical = Some True, strict = None\<rparr>))
       = Inr \<lparr>value = Number (Finite False (1 / 16777216)), bytesRead = 5\<rparr>"
proof -
  have g: "getFloat32 [0x33, 0x80, 0x00, 0x00] = Finite False (1 / 16777216)" by code_simp
  have v: "ieee_binary16 1 = Finite False (1 / 16777216)" by code_simp
  have c: "canBeFloat16 (Finite False (1 / 16777216)) = Inr False"
    by (simp add: canBeFloat16_Finite with_sign_def)
  have h: "hexToBytes ''fa33800000'' = Inr [0xfa, 0x33, 0x80, 0x00, 0x00]" by code_simp
  have o: "validateCanonical_set (Some \<lparr>validateCanonical = Some True, strict = None\<rparr>)"
    by (simp add: validateCanonical_set_def)
  have "fst (parseFloatFromBuffer [0xfa, 0x33, 0x80, 0x00, 0x00] 0
               (Some \<lparr>validateCanonical = Some True, strict = None\<rparr>))
        = Inr \<lparr>value = Number (Finite False (1 / 16777216)), bytesRead = 5\<rparr>"
    by (subst parseFloatFromBuffer_fa) (simp_all add: g o c Number_isNaN_def Let_def)
  then show ?thesis unfolding parseFloat_def h by (simp add: g v)
qed

text \<open>
  Claim C3, as amended. When \<open>validateCanonical\<close> is set, a finite binary32 value either
  fails with \<open>NonMinimalFloat\<close> or parses successfully; \<open>+0\<close> and \<open>-0\<close> fail; every
  non-zero value of magnitude below \<open>2 powi (- 14)\<close>, which covers every binary16
  subnormal, or above 65504 parses successfully; and so does every value that is not a
  binary16 value.
\<close>

theorem float32_minimal_check:
  assumes "validateCanonical_set options" and "offset + 4 < length buffer"
    and "buffer ! offset = 0xfa"
    and "getFloat32 (take 4 (drop (offset + 1) buffer)) = Finite s m"
  shows "(m = 0 \<longrightarrow>
            fst (parseFloatFromBuffer buffer offset options) = Inl (NonMinimalFloat FitsFloat16))
       \<and> (0 < m \<and> (m < 2 powi (- 14) \<or> 65504 < m) \<longrightarrow>
            fst (parseFloatFromBuffer buffer offset options)
              = Inr \<lparr>value = Number (Finite s m), bytesRead = 5\<rparr>)
       \<and> (\<not> is_binary16_value (Finite s m) \<longrightarrow>
            fst (parseFloatFromBuffer buffer offset options)
              = Inr \<lparr>value = Number (Finite s m), bytesRead = 5\<rparr>)
       \<and> (fst (parseFloatFromBuffer buffer offset options) = Inl (NonMinimalFloat FitsFloat16)
            \<or> fst (parseFloatFromBuffer buffer offset options)
              = Inr \<lparr>value = Number (Finite s m), bytesRead = 5\<rparr>)"
proof -
  have m: "0 \<le> m" using assms(4) unfolding getFloat32_def by (rule ieee_value_nonneg)
  obtain c where c: "canBeFloat16 (Finite s m) = Inr c" by (simp add: canBeFloat16_Finite)
  have r: "fst (parseFloatFromBuffer buffer offset options) =
        (if c then Inl (NonMinimalFloat FitsFloat16)
         else Inr \<lparr>value = Number (Finite s m), bytesRead = 5\<rparr>)"
    using assms by (simp add: parseFloatFromBuffer_fa Number_isNaN_def c)
  have z: "m = 0 \<Longrightarrow> c" using c by (simp add: canBeFloat16_Finite)
  have g: "0 < m \<Longrightarrow> m < 2 powi (- 14) \<or> 65504 < m \<Longrightarrow> \<not> c"
    using c by (auto simp: canBeFloat16_Finite with_sign_def simp del: power_int_numeral_neg_numeral)
  have b: "c \<Longrightarrow> is_binary16_value (Finite s m)"
    using c m by (auto intro: canBeFloat16_binary16)
  show ?thesis using z g b by (auto simp: r)
qed

theorem float32_minimal_check_witness:
  "fst (parseFloatFromBuffer [0xfa, 0x00, 0x00, 0x00, 0x00] 0
          (Some \<lparr>validateCanonical = Some True, strict = None\<rparr>))
     = Inl (NonMinimalFloat FitsFloat16)
   \<and> fst (parseFloatFromBuffer [0xfa, 0x33, 0x80, 0x00, 0x00] 0
          (Some \<lparr>validateCanonical = Some True, strict = None\<rparr>))
     = Inr \<lparr>value = Number (Finite False (1 / 16777216)), bytesRead = 5\<rparr>"
proof -
  let ?opts = "Some \<lparr>validateCanonical = Some True, strict = None\<rparr>"
  have o: "validateCanonical_set ?opts" by (simp add: validateCanonical_set_def)
  have z: "getFloat32 (take 4 (drop (0 + 1) [0xfa, 0x00, 0x00, 0x00, 0x00])) = Finite False 0"
    by code_simp
  have s: "getFloat32 (take 4 (drop (0 + 1) [0xfa, 0x33, 0x80, 0x00, 0x00]))
             = Finite False (1 / 16777216)"
    by code_simp
  have lt: "(0::rat) < 1 / 16777216
            \<and> ((1 / 16777216 :: rat) < 2 powi (- 14) \<or> (65504 :: rat) < 1 / 16777216)"
    by simp
  from float32_minimal_check [OF o _ _ z] float32_minimal_check [OF o _ _ s] lt
  show ?thesis by simp
qed

text \<open>
  Within the range of the binary16 normal numbers \<open>canBeFloat16\<close> compares the value
  with the decoding of \<open>encodeFloat16Bytes\<close>, whose \<open>mant64 >> 42\<close> is a 32-bit shift
  by \<open>42 mod 32\<close> of the low 32 bits of the mantissa. For 1.5 it yields the bytes of 1.0,
  so that \<open>fa3fc00000\<close> is accepted although \<open>f93e00\<close> encodes the same value.
\<close>

lemma setFloat64_three_halves:
  "getBigUint64 (setFloat64 (Finite False (3 / 2))) = 0x3ff8000000000000"
proof -
  have r: "round_to_format (52 + 1) (1 - (2 ^ (11 - 1) - 1)) (2 ^ (11 - 1) - 1) (3 / 2) = Some (3 / 2)"
    by (rule round_to_format_exact [where k = 3 and j = "- 1"]) simp_all
  have l: "floor_log2 (3 / 2) = 0" by (rule floor_log2_eqI) simp_all
  have "ieee_bits 52 11 (Finite False (3 / 2)) = 0x3ff8000000000000"
    unfolding ieee_bits_Finite [OF r] l by simp
  then show ?thesis by (simp add: getBigUint64_def setFloat64_def be_int_be_bytes)
qed

lemma canBeFloat16_drops_fraction:
  "ieee_binary16 0x3e00 = Finite False (3 / 2)
   \<and> encodeFloat16Bytes (Finite False (3 / 2)) = [0x3c, 0x00]
   \<and> canBeFloat16 (Finite False (3 / 2)) = Inr False
   \<and> fst (parseFloat ''fa3fc00000'' (Some \<lparr>validateCanonical = Some True, strict = None\<rparr>))
       = Inr \<lparr>value = Number (Finite False (3 / 2)), bytesRead = 5\<rparr>"
proof -
  have v: "ieee_binary16 0x3e00 = Finite False (3 / 2)" by code_simp
  have sh: "js_sar 0x8000000000000 42 = 0" by (simp add: js_sar_def ToInt32_def)
  have f: "js_or (js_or (js_shl 0 15) (js_shl 15 10)) 0 = 0x3c00"
    by (simp add: js_or_def js_shl_def ToInt32_def)
  have e: "encodeFloat16Bytes (Finite False (3 / 2)) = [0x3c, 0x00]"
    by (simp add: encodeFloat16Bytes_def isNegativeZero_def Object_is_def Number_isNaN_def
        Math_abs_def with_sign_def setFloat64_three_halves Let_def sh f js_and_def js_sar_def ToInt32_def)
  have p: "ieee_binary16 15360 = Finite False 1"
    by code_simp
  have c: "canBeFloat16 (Finite False (3 / 2)) = Inr False"
    by (simp add: canBeFloat16_Finite with_sign_def e p del: power_int_numeral_neg_numeral)
  have h: "hexToBytes ''fa3fc00000'' = Inr [0xfa, 0x3f, 0xc0, 0x00, 0x00]" by code_simp
  have g: "getFloat32 [0x3f, 0xc0, 0x00, 0x00] = Finite False (3 / 2)"
    by code_simp
  have o: "validateCanonical_set (Some \<lparr>validateCanonical = Some True, strict = None\<rparr>)"
    by (simp add: validateCanonical_set_def)
  have "fst (parseFloatFromBuffer [0xfa, 0x3f, 0xc0, 0x00, 0x00] 0
               (Some \<lparr>validateCanonical = Some True, strict = None\<rparr>))
        = Inr \<lparr>value = Number (Finite False (3 / 2)), bytesRead = 5\<rparr>"
    by (subst parseFloatFromBuffer_fa) (simp_all add: g o c Number_isNaN_def Let_def)
  then show ?thesis unfolding parseFloat_def h by (simp add: v e c)
qed

text \<open>
  Claim C5. When \<open>validateCanonical\<close> is set, a finite binary64 value that is
  representable in binary32 (the round trip through binary32 preserves it under
  \<open>Object.is\<close>) fails with \<open>NonMinimalFloat\<close>, and a finite binary64 value that is not
  parses successfully; every binary16 value is representable in binary32.
\<close>

theorem float64_minimal_check:
  assumes "validateCanonical_set options" and "offset + 8 < length buffer"
    and "buffer ! offset = 0xfb"
    and "getFloat64 (take 8 (drop (offset + 1) buffer)) = Finite s m"
  shows "fst (parseFloatFromBuffer buffer offset options) =
           (if representable_binary32 (Finite s m)
            then Inl (NonMinimalFloat FitsFloat16OrFloat32)
            else Inr \<lparr>value = Number (Finite s m), bytesRead = 9\<rparr>)
       \<and> (is_binary16_value (Finite s m) \<longrightarrow> representable_binary32 (Finite s m))"
proof -
  have m: "0 \<le> m" using assms(4) unfolding getFloat64_def by (rule ieee_value_nonneg)
  obtain c where c: "canBeFloat16 (Finite s m) = Inr c" by (simp add: canBeFloat16_Finite)
  have "c \<Longrightarrow> representable_binary32 (Finite s m)"
    using c m by (auto intro: canBeFloat16_binary16 binary16_representable_binary32)
  then have "(c \<or> canBeFloat32 (Finite s m)) = representable_binary32 (Finite s m)"
    by (auto simp: canBeFloat32_eq)
  then show ?thesis
    using assms by (simp add: parseFloatFromBuffer_fb Number_isNaN_def c
        binary16_representable_binary32)
qed

theorem float64_minimal_check_witness:
  "fst (parseFloatFromBuffer [0xfb, 0x3f, 0xf8, 0x00, 0x00, 0x00, 0x00, 0x00, 0x00] 0
          (Some \<lparr>validateCanonical = Some True, strict = None\<rparr>))
     = Inl (NonMinimalFloat FitsFloat16OrFloat32)
   \<and> fst (parseFloatFromBuffer [0xfb, 0x3f, 0xf8, 0x00, 0x00, 0x00, 0x00, 0x00, 0x01] 0
          (Some \<lparr>validateCanonical = Some True, strict = None\<rparr>))
     = Inr \<lparr>value = Number (Finite False (6755399441055745 / 4503599627370496)),
            bytesRead = 9\<rparr>"
proof -
  let ?opts = "Some \<lparr>validateCanonical = Some True, strict = None\<rparr>"
  have o: "validateCanonical_set ?opts" by (simp add: validateCanonical_set_def)
  have a: "getFloat64 (take 8 (drop (0 + 1)
             [0xfb, 0x3f, 0xf8, 0x00, 0x00, 0x00, 0x00, 0x00, 0x00])) = Finite False (3 / 2)"
    by code_simp
  have b: "getFloat64 (take 8 (drop (0 + 1)
             [0xfb, 0x3f, 0xf8, 0x00, 0x00, 0x00, 0x00, 0x00, 0x01]))
           = Finite False (6755399441055745 / 4503599627370496)"
    by code_simp
  have ra: "representable_binary32 (Finite False (3 / 2))" by code_simp
  have rb: "\<not> representable_binary32 (Finite False (6755399441055745 / 4503599627370496))"
    by code_simp
  from float64_minimal_check [OF o _ _ a] float64_minimal_check [OF o _ _ b] ra rb
  show ?thesis by simp
qed

section \<open>The class facade\<close>

text \<open>
  Claim C10. A \<open>CborDecoder\<close> constructed with an options record stores that record
  unchanged; its \<open>decode\<close> and \<open>decodeWithSourceMap\<close> return what the functions of the
  same names return for the same hex string and these options, and leave the object as it
  was, so that a second call on the same object again behaves like a call of the function.
\<close>

theorem decoder_facade:
  "decoder_options (CborDecoder_new (Some opts)) = opts
   \<and> CborDecoder_decode P (CborDecoder_new (Some opts)) h
       = (decode P h (Some opts), CborDecoder_new (Some opts))
   \<and> CborDecoder_decodeWithSourceMap P (CborDecoder_new (Some opts)) h
       = (decodeWithSourceMap P h (Some opts), CborDecoder_new (Some opts))
   \<and> fst (CborDecoder_decode P (snd (CborDecoder_decode P (CborDecoder_new (Some opts)) h)) h')
       = decode P h' (Some opts)
   \<and> fst (CborDecoder_decodeWithSourceMap P
             (snd (CborDecoder_decode P (CborDecoder_new (Some opts)) h)) h')
       = decodeWithSourceMap P h' (Some opts)"
  by (simp add: CborDecoder_new_def CborDecoder_decode_def CborDecoder_decodeWithSourceMap_def)

section \<open>The direct path and the source-map path\<close>

lemma forget_simps [simp]:
  "forget (Inl e) = Inl e"
  "forget (Inr ((v, es), s)) = Inr (v, s)"
  by (simp_all add: forget_def)

lemma forget_Inl_iff: "forget r = Inl e \<longleftrightarrow> r = Inl e"
  by (auto simp: forget_def split: sum.splits prod.splits)

lemma forget_Inr_iff: "forget r = Inr (v, s) \<longleftrightarrow> (\<exists>es. r = Inr ((v, es), s))"
  by (auto simp: forget_def split: sum.splits prod.splits)

lemma agreesD: "agrees item_sm item \<Longrightarrow> forget (item_sm p q s) = item s"
  unfolding agrees_def by blast

lemma thenE_simps [simp]:
  "thenE (Inl e) f = Inl e"
  "thenE (Inr x) f = f x"
  by (simp_all add: thenE_def)

lemma def_items_agree:
  assumes ag: "agrees item_sm item"
  shows "forget (def_items_sm C item_sm path i n s) = def_items item n s"
proof (induction n arbitrary: i s)
  case 0
  show ?case by simp
next
  case (Suc n)
  show ?case
  proof (cases "item_sm (path @ index_segment C i) (Some path) s")
    case (Inl e)
    with agreesD [OF ag, of "path @ index_segment C i" "Some path" s, symmetric] have "item s = Inl e"
      by simp
    with Inl show ?thesis by simp
  next
    case (Inr r)
    then obtain v es s' where r: "item_sm (path @ index_segment C i) (Some path) s = Inr ((v, es), s')"
      by (cases r) auto
    with agreesD [OF ag, of "path @ index_segment C i" "Some path" s, symmetric]
    have i: "item s = Inr (v, s')" by simp
    show ?thesis
      using Suc.IH [of "Suc i" s', symmetric]
      by (cases "def_items_sm C item_sm path (Suc i) n s'") (auto simp: r i split: prod.splits)
  qed
qed


lemma indef_items_agree:
  assumes ag: "agrees item_sm item"
  shows "forget (indef_items_sm C buf item_sm path i budget s) = indef_items buf item budget s"
proof (induction budget arbitrary: i s)
  case 0
  show ?case by (cases s) simp
next
  case (Suc budget)
  obtain off out where s: "s = (off, out)" by (cases s)
  show ?case
  proof (cases "item_sm (path @ index_segment C i) (Some path) s")
    case (Inl e)
    with agreesD [OF ag, of "path @ index_segment C i" "Some path" s, symmetric] have "item s = Inl e"
      by simp
    with Inl show ?thesis by (simp add: s)
  next
    case (Inr r)
    then obtain v es s' where r: "item_sm (path @ index_segment C i) (Some path) s = Inr ((v, es), s')"
      by (cases r) auto
    with agreesD [OF ag, of "path @ index_segment C i" "Some path" s, symmetric]
    have i: "item s = Inr (v, s')" by simp
    show ?thesis
      using Suc.IH [of "Suc i" s', symmetric] r i
      by (cases "indef_items_sm C buf item_sm path (Suc i) budget s'")
         (auto simp: s split: prod.splits)
  qed
qed

lemma pair_value_agree:
  assumes ag: "agrees item_sm item"
  shows "forget (pair_value_sm buf item_sm p q s) = pair_value buf item s"
  by (simp add: pair_value_sm_def pair_value_def agreesD [OF ag])

lemma def_pairs_agree:
  assumes ag: "agrees item_sm item"
  shows "forget (def_pairs_sm C buf item_sm path n s) = def_pairs buf item n s"
proof (induction n arbitrary: s)
  case 0
  show ?case by simp
next
  case (Suc n)
  show ?case
  proof (cases "item_sm path (Some path) s")
    case (Inl e)
    with agreesD [OF ag, of path "Some path" s, symmetric] have "item s = Inl e" by simp
    with Inl show ?thesis by simp
  next
    case (Inr r)
    then obtain k kes s1 where r: "item_sm path (Some path) s = Inr ((k, kes), s1)"
      by (cases r) auto
    with agreesD [OF ag, of path "Some path" s, symmetric] have i: "item s = Inr (k, s1)" by simp
    show ?thesis
    proof (cases "item_sm (path @ key_segment C k) (Some path) s1")
      case (Inl e)
      with agreesD [OF ag, of "path @ key_segment C k" "Some path" s1, symmetric] have "item s1 = Inl e"
        by simp
      with Inl r i show ?thesis by simp
    next
      case (Inr r')
      then obtain v es s2 where r': "item_sm (path @ key_segment C k) (Some path) s1 = Inr ((v, es), s2)"
        by (cases r') auto
      with agreesD [OF ag, of "path @ key_segment C k" "Some path" s1, symmetric]
      have i': "item s1 = Inr (v, s2)" by simp
      show ?thesis
        using Suc.IH [of s2, symmetric] r i r' i'
        by (cases "def_pairs_sm C buf item_sm path n s2") (auto split: prod.splits)
    qed
  qed
qed

lemma indef_pairs_agree:
  assumes ag: "agrees item_sm item"
  shows "forget (indef_pairs_sm C buf item_sm path budget s) = indef_pairs buf item budget s"
proof (induction budget arbitrary: s)
  case 0
  show ?case by (cases s) simp
next
  case (Suc budget)
  obtain off out where s: "s = (off, out)" by (cases s)
  show ?case
  proof (cases "item_sm path (Some path) s")
    case (Inl e)
    with agreesD [OF ag, of path "Some path" s, symmetric] have "item s = Inl e" by simp
    with Inl show ?thesis by (simp add: s)
  next
    case (Inr r)
    then obtain k kes s1 where r: "item_sm path (Some path) s = Inr ((k, kes), s1)"
      by (cases r) auto
    with agreesD [OF ag, of path "Some path" s, symmetric] have i: "item s = Inr (k, s1)" by simp
    have pv: "pair_value buf item s1
                = forget (pair_value_sm buf item_sm (path @ key_segment C k) (Some path) s1)"
      by (simp add: pair_value_sm_def pair_value_def agreesD [OF ag])
    show ?thesis
    proof (cases "pair_value_sm buf item_sm (path @ key_segment C k) (Some path) s1")
      case (Inl e)
      with pv have "pair_value buf item s1 = Inl e" by simp
      with Inl r i show ?thesis by (simp add: s)
    next
      case (Inr r')
      then obtain v es s2
        where r': "pair_value_sm buf item_sm (path @ key_segment C k) (Some path) s1 = Inr ((v, es), s2)"
        by (cases r') auto
      with pv have i': "pair_value buf item s1 = Inr (v, s2)" by simp
      show ?thesis
        using Suc.IH [of s2, symmetric] r i r' i'
        by (cases "indef_pairs_sm C buf item_sm path budget s2") (auto simp: s split: prod.splits)
    qed
  qed
qed


lemma forget_thenE:
  "forget (thenE r f) = (case r of Inl e \<Rightarrow> Inl e | Inr x \<Rightarrow> forget (f x))"
  by (simp add: thenE_def split: sum.splits)

lemma parse_array_agree:
  assumes ag: "agrees item_sm item"
  shows "forget (parse_array_sm C opts buf item_sm path ai s) = parse_array opts buf item ai s"
proof -
  obtain off out where s: "s = (off, out)" by (cases s)
  show ?thesis
  proof (cases "ai = 31")
    case True
    show ?thesis
    proof (cases "indef_items_sm C buf item_sm path 0 (max_array_length opts) (off + 1, out)")
      case (Inl e)
      with indef_items_agree [OF ag, of C buf path 0 "max_array_length opts" "(off + 1, out)", symmetric]
      show ?thesis by (simp add: parse_array_sm_def parse_array_def s True)
    next
      case (Inr r)
      then obtain vs es s' where
        "indef_items_sm C buf item_sm path 0 (max_array_length opts) (off + 1, out) = Inr ((vs, es), s')"
        by (cases r) auto
      with indef_items_agree [OF ag, of C buf path 0 "max_array_length opts" "(off + 1, out)", symmetric]
      show ?thesis by (simp add: parse_array_sm_def parse_array_def s True)
    qed
  next
    case False
    show ?thesis
    proof (cases "read_argument buf off ai")
      case (Inl e)
      then show ?thesis by (simp add: parse_array_sm_def parse_array_def s False)
    next
      case (Inr a)
      then obtain n off' where a: "read_argument buf off ai = Inr (n, off')" by (cases a) auto
      show ?thesis
      proof (cases "def_items_sm C item_sm path 0 n (off', out)")
        case (Inl e)
        with def_items_agree [OF ag, of C path 0 n "(off', out)", symmetric]
        show ?thesis by (simp add: parse_array_sm_def parse_array_def s False a)
      next
        case (Inr r)
        then obtain vs es s' where
          "def_items_sm C item_sm path 0 n (off', out) = Inr ((vs, es), s')"
          by (cases r) auto
        with def_items_agree [OF ag, of C path 0 n "(off', out)", symmetric]
        show ?thesis by (simp add: parse_array_sm_def parse_array_def s False a)
      qed
    qed
  qed
qed


lemma check_keys_thenE:
  "forget (thenE (check_keys C opts ps) (\<lambda>_. Inr (((ps, indef), es), s')))
     = thenE (check_keys C opts ps) (\<lambda>_. Inr ((ps, indef), s'))"
  by (cases "check_keys C opts ps") simp_all

lemma parse_map_agree:
  assumes ag: "agrees item_sm item"
  shows "forget (parse_map_sm C opts buf item_sm path ai s) = parse_map C opts buf item ai s"
proof -
  obtain off out where s: "s = (off, out)" by (cases s)
  show ?thesis
  proof (cases "ai = 31")
    case True
    show ?thesis
    proof (cases "indef_pairs_sm C buf item_sm path (max_map_size opts) (off + 1, out)")
      case (Inl e)
      with indef_pairs_agree [OF ag, of C buf path "max_map_size opts" "(off + 1, out)", symmetric]
      show ?thesis by (simp add: parse_map_sm_def parse_map_def s True)
    next
      case (Inr r)
      then obtain ps es s' where
        "indef_pairs_sm C buf item_sm path (max_map_size opts) (off + 1, out) = Inr ((ps, es), s')"
        by (cases r) auto
      with indef_pairs_agree [OF ag, of C buf path "max_map_size opts" "(off + 1, out)", symmetric]
      show ?thesis by (simp add: parse_map_sm_def parse_map_def s True check_keys_thenE)
    qed
  next
    case False
    show ?thesis
    proof (cases "read_argument buf off ai")
      case (Inl e)
      then show ?thesis by (simp add: parse_map_sm_def parse_map_def s False)
    next
      case (Inr a)
      then obtain n off' where a: "read_argument buf off ai = Inr (n, off')" by (cases a) auto
      show ?thesis
      proof (cases "def_pairs_sm C buf item_sm path n (off', out)")
        case (Inl e)
        with def_pairs_agree [OF ag, of C buf path n "(off', out)", symmetric]
        show ?thesis by (simp add: parse_map_sm_def parse_map_def s False a)
      next
        case (Inr r)
        then obtain ps es s' where
          "def_pairs_sm C buf item_sm path n (off', out) = Inr ((ps, es), s')"
          by (cases r) auto
        with def_pairs_agree [OF ag, of C buf path n "(off', out)", symmetric]
        show ?thesis by (simp add: parse_map_sm_def parse_map_def s False a check_keys_thenE)
      qed
    qed
  qed
qed

lemma forget_leaf_sm [simp]: "forget (leaf_sm C path parent off mt r) = r"
  by (cases r) (auto simp: leaf_sm_def)

lemma array_branch:
  assumes ag: "agrees item_sm item"
  shows "forget (thenE (parse_array_sm C opts buf item_sm path ai s)
                   (\<lambda>(((vs, indef), es), s'). Inr ((Array vs indef, E vs indef es s'), s')))
         = thenE (parse_array opts buf item ai s) (\<lambda>((vs, indef), s'). Inr (Array vs indef, s'))"
proof (cases "parse_array_sm C opts buf item_sm path ai s")
  case (Inl e)
  with parse_array_agree [OF ag, of C opts buf path ai s, symmetric] show ?thesis by simp
next
  case (Inr r)
  then obtain vs indef es s' where
    "parse_array_sm C opts buf item_sm path ai s = Inr (((vs, indef), es), s')"
    by (cases r) auto
  with parse_array_agree [OF ag, of C opts buf path ai s, symmetric] show ?thesis by simp
qed

lemma map_branch:
  assumes ag: "agrees item_sm item"
  shows "forget (thenE (parse_map_sm C opts buf item_sm path ai s)
                   (\<lambda>(((ps, indef), es), s'). Inr ((G ps indef, E ps indef es s'), s')))
         = thenE (parse_map C opts buf item ai s) (\<lambda>((ps, indef), s'). Inr (G ps indef, s'))"
proof (cases "parse_map_sm C opts buf item_sm path ai s")
  case (Inl e)
  with parse_map_agree [OF ag, of C opts buf path ai s, symmetric] show ?thesis by simp
next
  case (Inr r)
  then obtain ps indef es s' where
    "parse_map_sm C opts buf item_sm path ai s = Inr (((ps, indef), es), s')"
    by (cases r) auto
  with parse_map_agree [OF ag, of C opts buf path ai s, symmetric] show ?thesis by simp
qed

lemma tag_branch:
  assumes ag: "agrees item_sm item"
  shows "forget (thenE (item_sm p q s) (\<lambda>((v, es), s').
                   thenE (T v) (\<lambda>v'. Inr ((v', E v' es s'), s'))))
         = thenE (item s) (\<lambda>(v, s'). thenE (T v) (\<lambda>v'. Inr (v', s')))"
proof (cases "item_sm p q s")
  case (Inl e)
  with agreesD [OF ag, of p q s, symmetric] show ?thesis by simp
next
  case (Inr r)
  then obtain v es s' where r: "item_sm p q s = Inr ((v, es), s')" by (cases r) auto
  with agreesD [OF ag, of p q s, symmetric] have "item s = Inr (v, s')" by simp
  with r show ?thesis by (cases "T v") simp_all
qed


lemma parse_level_agree_None:
  "forget (parse_level_sm C opts buf None path parent s) = parse_level C opts buf None s"
proof -
  obtain off out where s: "s = (off, out)" by (cases s)
  show ?thesis
  proof (cases "read_header buf off")
    case (Inl e)
    then show ?thesis by (simp add: parse_level_sm_def parse_level_def s)
  next
    case (Inr h)
    then obtain mt ai where h: "read_header buf off = Inr (mt, ai)" by (cases h) auto
    show ?thesis by (simp add: parse_level_sm_def parse_level_def s h)
  qed
qed

lemma parse_level_agree_Some:
  assumes ag: "agrees item_sm item"
  shows "forget (parse_level_sm C opts buf (Some item_sm) path parent s)
           = parse_level C opts buf (Some item) s"
proof -
  obtain off out where s: "s = (off, out)" by (cases s)
  show ?thesis
  proof (cases "read_header buf off")
    case (Inl e)
    then show ?thesis by (simp add: parse_level_sm_def parse_level_def s)
  next
    case (Inr h)
    then obtain mt ai where h: "read_header buf off = Inr (mt, ai)" by (cases h) auto
    have tag: "\<And>mt. forget (thenE (read_argument buf off ai) (\<lambda>(tag, off').
                 thenE (item_sm (path @ ''.value'') (Some path) (off', out)) (\<lambda>((v, es), s').
                   thenE (tag_semantics C opts tag v) (\<lambda>v'.
                     Inr ((v', mk_entry C path parent off (fst s') mt v' [path @ ''.value''] # es),
                          s')))))
             = thenE (read_argument buf off ai) (\<lambda>(tag, off').
                 thenE (item (off', out)) (\<lambda>(v, s').
                   thenE (tag_semantics C opts tag v) (\<lambda>v'. Inr (v', s'))))"
    proof -
      fix mt
      show "?thesis mt"
      proof (cases "read_argument buf off ai")
        case (Inl e)
        then show ?thesis by simp
      next
        case (Inr a)
        then obtain tag off' where "read_argument buf off ai = Inr (tag, off')" by (cases a) auto
        then show ?thesis by (simp add: tag_branch [OF ag])
      qed
    qed
    show ?thesis
      unfolding parse_level_sm_def parse_level_def s prod.case h thenE_simps option.case
      by (simp only: array_branch [OF ag] map_branch [OF ag] tag forget_leaf_sm if_distrib [of forget]
          cong: if_cong)
  qed
qed

lemma parse_value_agree: "agrees (parse_value_sm C opts buf depth) (parse_value C opts buf depth)"
proof (induction depth)
  case 0
  show ?case by (simp add: agrees_def parse_level_agree_None)
next
  case (Suc depth)
  show ?case
    unfolding agrees_def parse_value_sm.simps parse_value.simps
    using parse_level_agree_Some [OF Suc] by blast
qed

text \<open>
  The two paths on concrete inputs: an array within the limits, an array above
  \<open>max_array_length\<close>, nesting above \<open>max_depth\<close>, missing and misplaced breaks, a tag, an
  indefinite byte string and a duplicate key.
\<close>

lemma decode_examples:
  "decode (useCborParser plain_collaborators) ''820102'' None
     = Inr \<lparr>decoded_value = Array [Unsigned 1, Unsigned 2] False, bytes_read = 3\<rparr>"
  "map_sum id decoded_value (decodeWithSourceMap (useCborParser plain_collaborators) ''820102'' None)
     = Inr (Array [Unsigned 1, Unsigned 2] False)"
  "decode (useCborParser plain_collaborators) ''83010203'' None = Inl ArrayTooLarge"
  "decodeWithSourceMap (useCborParser plain_collaborators) ''83010203'' None = Inl ArrayTooLarge"
  "decode (useCborParser plain_collaborators) ''8180'' None = Inl DepthExceeded"
  "decodeWithSourceMap (useCborParser plain_collaborators) ''8180'' None = Inl DepthExceeded"
  "decode (useCborParser plain_collaborators) ''9f01'' None = Inl MissingBreak"
  "decodeWithSourceMap (useCborParser plain_collaborators) ''bf01ff'' None = Inl BreakInsideMapPair"
  "decode (useCborParser plain_collaborators) ''d87980'' None = Inl DepthExceeded"
  "decode (useCborParser plain_collaborators) ''d87901'' None
     = Inr \<lparr>decoded_value = Tagged 121 (Unsigned 1), bytes_read = 3\<rparr>"
  "decode (useCborParser plain_collaborators) ''5f4101420203ff'' None
     = Inr \<lparr>decoded_value = Bytes [1, 2, 3], bytes_read = 7\<rparr>"
  "decode (useCborParser plain_collaborators) ''a201020102'' None = Inl DuplicateKey"
  by code_simp+

text \<open>
  Claim C1. For every input and every options record, \<open>decode\<close> and
  \<open>decodeWithSourceMap\<close> either both succeed with equal decoded values (and the same
  number of bytes read), or both fail with the same error kind. Every limit
  (\<open>max_depth\<close>, \<open>max_array_length\<close>, \<open>max_map_size\<close>, \<open>max_output_size\<close>,
  \<open>allow_indefinite\<close>, the break requirements, the strict and the canonical rules) is a
  failure of the direct path, so it is enforced identically on the source-map path.
\<close>

theorem decode_paths_agree:
  "(\<exists>v n sm.
       decode (useCborParser C) hexString options = Inr \<lparr>decoded_value = v, bytes_read = n\<rparr>
     \<and> decodeWithSourceMap (useCborParser C) hexString options
         = Inr \<lparr>decoded_value = v, bytes_read = n, source_map = sm\<rparr>)
   \<or> (\<exists>e. decode (useCborParser C) hexString options = Inl e
          \<and> decodeWithSourceMap (useCborParser C) hexString options = Inl e)"
proof -
  define opts where "opts = (case options of None \<Rightarrow> default_options C | Some given \<Rightarrow> given)"
  show ?thesis
  proof (cases "hexToBytes hexString")
    case (Inl e)
    then show ?thesis
      by (simp add: decode_def decodeWithSourceMap_def useCborParser_def spec_parse_def
          spec_parseWithSourceMap_def)
  next
    case (Inr buf)
    note ag = agreesD [OF parse_value_agree, of C opts buf "max_depth opts" "[]" None "(0, 0)", symmetric]
    show ?thesis
    proof (cases "parse_value_sm C opts buf (max_depth opts) [] None (0, 0)")
      case (Inl e)
      with ag have "parse_value C opts buf (max_depth opts) (0, 0) = Inl e" by simp
      with Inl Inr show ?thesis
        by (simp add: decode_def decodeWithSourceMap_def useCborParser_def spec_parse_def
            spec_parseWithSourceMap_def opts_def [symmetric])
    next
      case r: (Inr r)
      then obtain v es s where r': "parse_value_sm C opts buf (max_depth opts) [] None (0, 0) = Inr ((v, es), s)"
        by (cases r) auto
      with ag have "parse_value C opts buf (max_depth opts) (0, 0) = Inr (v, s)" by simp
      with r' Inr show ?thesis
        by (simp add: decode_def decodeWithSourceMap_def useCborParser_def spec_parse_def
            spec_parseWithSourceMap_def opts_def [symmetric])
    qed
  qed
qed

theorem decode_paths_agree_witness:
  "\<exists>sm. decodeWithSourceMap (useCborParser plain_collaborators) ''820102'' None
          = Inr \<lparr>decoded_value = Array [Unsigned 1, Unsigned 2] False, bytes_read = 3,
                 source_map = sm\<rparr>"
proof -
  have d: "decode (useCborParser plain_collaborators) ''820102'' None
             = Inr \<lparr>decoded_value = Array [Unsigned 1, Unsigned 2] False, bytes_read = 3\<rparr>"
    by code_simp
  show ?thesis
    using decode_paths_agree [of plain_collaborators "''820102''" None] unfolding d by auto
qed

end
